theory Spec2Isabelle
  imports Complex_Main "HOL-Library.Multiset"
begin

section \<open>Ranking-quality evaluation: \<open>Scripts/analysis.py\<close>\<close>

text \<open>
  The two functions of \<open>analysis.py\<close>, \<open>spearman_ds\<close> and \<open>ndcg_at_k\<close>, over a small
  model of the data frame they read.

  Numbers: a cell of the frame is a \<^typ>\<open>real\<close>, a finite number. Python's integers (\<open>k\<close>, the
  column positions) are \<^typ>\<open>int\<close>. The floating-point arithmetic of the loop of
  \<open>ndcg_at_k\<close> is a parameter of the model (\<open>arith\<close>): its values may round, overflow and be
  not a number. Exact real arithmetic is one instance (\<open>exact\<close>); what is proved of the
  instance alone is said to be so.

  Library calls whose outcome the code does not determine are parameters too: the row order
  of \<open>sort_values\<close> among equal keys (\<open>indexer\<close>) and the grades of \<open>quantile\<close> and \<open>pd.cut\<close>
  (\<open>binning\<close>).

  Exceptions: every \<open>raise\<close> the code can reach is a value \<open>Inl e\<close> of \<open>error + 'a\<close>.
\<close>

subsection \<open>Errors and the data frame\<close>

datatype error = IndexError | KeyError | ValueError

definition and_then :: "error + 'a \<Rightarrow> ('a \<Rightarrow> error + 'b) \<Rightarrow> error + 'b" where
  "and_then r f = (case r of Inl e \<Rightarrow> Inl e | Inr x \<Rightarrow> f x)"

type_synonym column = "real list"

text \<open>
  A data frame is the list of its columns in positional order, each with its label. All the
  columns of a frame have the same number of rows (\<open>frame_ok\<close>); labels may repeat, and a
  lookup by a repeated label fails as it does in pandas.
\<close>

type_synonym dataframe = "(string \<times> column) list"

definition nrows :: "dataframe \<Rightarrow> nat" where
  "nrows ds = (case ds of [] \<Rightarrow> 0 | c # _ \<Rightarrow> length (snd c))"

definition frame_ok :: "dataframe \<Rightarrow> bool" where
  "frame_ok ds = list_all (\<lambda>c. length (snd c) = nrows ds) ds"

text \<open>Positional access \<open>xs[i]\<close> of Python: a negative position counts from the end.\<close>

definition py_pos :: "'a list \<Rightarrow> int \<Rightarrow> error + 'a" where
  "py_pos xs i =
     (if 0 \<le> i \<and> i < int (length xs) then Inr (xs ! nat i)
      else if - int (length xs) \<le> i \<and> i < 0 then Inr (xs ! nat (i + int (length xs)))
      else Inl IndexError)"

text \<open>
  \<open>ds.iloc[:, c]\<close>, \<open>ds.columns[c]\<close>, \<open>ds[name]\<close> and \<open>ds[name] = col\<close>. The assignment
  writes the values into every column of that name, each staying where it is, or adds the
  column at the end when there is none.
\<close>

definition iloc :: "dataframe \<Rightarrow> int \<Rightarrow> error + column" where
  "iloc ds c = and_then (py_pos ds c) (\<lambda>col. Inr (snd col))"

definition columns :: "dataframe \<Rightarrow> int \<Rightarrow> error + string" where
  "columns ds c = and_then (py_pos ds c) (\<lambda>col. Inr (fst col))"

definition getitem :: "dataframe \<Rightarrow> string \<Rightarrow> error + column" where
  "getitem ds name =
     (case filter (\<lambda>c. fst c = name) ds of
        [] \<Rightarrow> Inl KeyError
      | [c] \<Rightarrow> Inr (snd c)
      | _ \<Rightarrow> Inl ValueError)"

definition setitem :: "dataframe \<Rightarrow> string \<Rightarrow> column \<Rightarrow> dataframe" where
  "setitem ds name col =
     (if name \<in> fst ` set ds
      then map (\<lambda>c. if fst c = name then (name, col) else c) ds
      else ds @ [(name, col)])"

subsection \<open>The library's sort\<close>

text \<open>
  \<open>DataFrame.sort_values(by, ascending)\<close> computes, from the key column, the row positions
  in output order and takes every column at these positions. The code calls it with the
  default \<open>kind\<close>, for which pandas promises the order of the keys and nothing about rows with
  equal keys. The positions are therefore a parameter \<open>ix\<close> of the model (ascending flag and
  key column to row positions), and \<open>sorts_by ix\<close> is what pandas promises of it.
\<close>

type_synonym indexer = "bool \<Rightarrow> column \<Rightarrow> nat list"

definition key_ordered :: "bool \<Rightarrow> column \<Rightarrow> nat list \<Rightarrow> bool" where
  "key_ordered ascending keys idx =
     sorted (map (\<lambda>i. keys ! i) (if ascending then idx else rev idx))"

definition sorts_by :: "indexer \<Rightarrow> bool" where
  "sorts_by ix =
     (\<forall>ascending keys.
        mset (ix ascending keys) = mset [0..<length keys] \<and>
        key_ordered ascending keys (ix ascending keys))"

text \<open>
  One such indexer, used to run the model on concrete frames: a stable sort of the positions,
  descending by sorting the reversed positions and reversing the outcome. The frames on which
  the model is run below have distinct keys in the column they are sorted by, and there every
  indexer that sorts by key gives the same positions (\<open>sorts_by_distinct_keys\<close>).
\<close>

definition stable_indexer :: indexer where
  "stable_indexer ascending keys =
     (if ascending then sort_key (\<lambda>i. keys ! i) [0..<length keys]
      else rev (sort_key (\<lambda>i. keys ! i) (rev [0..<length keys])))"

definition take_rows :: "nat list \<Rightarrow> dataframe \<Rightarrow> dataframe" where
  "take_rows idx ds = map (\<lambda>c. (fst c, map (\<lambda>i. snd c ! i) idx)) ds"

definition sort_values :: "indexer \<Rightarrow> dataframe \<Rightarrow> string \<Rightarrow> bool \<Rightarrow> error + dataframe" where
  "sort_values ix ds by_label ascending =
     and_then (getitem ds by_label) (\<lambda>keys. Inr (take_rows (ix ascending keys) ds))"

subsection \<open>Binning: \<open>Series.quantile\<close> and \<open>pd.cut\<close>\<close>

text \<open>
  With \<open>bins\<close> the code grades the actual values: it takes the six quantiles
  \<open>0, 0.2, ..., 1\<close> of the column and cuts the column at them into the grades \<open>0..4\<close>.
  Both calls compute in floating point, and \<open>pd.cut\<close> raises when two of the edges it is
  given coincide. The two calls together are a parameter \<open>B\<close> of the model, from the column
  to its grades or to the error raised. What is used of it: a grade for every row
  (\<open>keeps_rows\<close>), and a higher value never has a lower grade (\<open>grades_monotone\<close>; the grade
  of a value is the number of edges below it).
\<close>

type_synonym binning = "column \<Rightarrow> error + column"

definition keeps_rows :: "binning \<Rightarrow> bool" where
  "keeps_rows B = (\<forall>x g. B x = Inr g \<longrightarrow> length g = length x)"

definition grades_monotone :: "binning \<Rightarrow> bool" where
  "grades_monotone B =
     (\<forall>x g. B x = Inr g \<longrightarrow>
        (\<forall>i j. i < length x \<and> j < length x \<and> x ! i \<le> x ! j \<longrightarrow> g ! i \<le> g ! j))"

text \<open>
  The binning in exact arithmetic, used to run the model on concrete frames.
  \<open>quantile\<close> interpolates linearly between the two order statistics around position
  \<open>q * (n - 1)\<close>. \<open>cut\<close> with \<open>right=True\<close>, \<open>include_lowest=True\<close> and the labels \<open>0..4\<close>
  refuses bin edges that are not unique, and labels a value by the number of edges strictly
  below it (the lowest edge itself belongs to the first bin). The quantiles of an empty
  column are undefined, and \<open>cut\<close> refuses them.
\<close>

definition quantile_list :: "real list" where
  "quantile_list = [0, 0.20, 0.40, 0.60, 0.80, 1]"

definition quantile :: "column \<Rightarrow> real \<Rightarrow> real" where
  "quantile x q =
     (let v = sort x;
          h = q * real (length x - 1);
          lo = nat \<lfloor>h\<rfloor>;
          hi = nat \<lceil>h\<rceil>
      in v ! lo + (h - real lo) * (v ! hi - v ! lo))"

definition searchsorted_left :: "real list \<Rightarrow> real \<Rightarrow> nat" where
  "searchsorted_left edges v = length (takeWhile (\<lambda>e. e < v) edges)"

definition cut_label :: "real list \<Rightarrow> real \<Rightarrow> real" where
  "cut_label edges v =
     (let ids = (if v = hd edges then 1 else searchsorted_left edges v)
      in real ids - 1)"

definition cut :: "column \<Rightarrow> real list \<Rightarrow> error + column" where
  "cut x edges =
     (if x = [] \<or> \<not> distinct edges then Inl ValueError
      else Inr (map (cut_label edges) x))"

definition exact_binning :: binning where
  "exact_binning x = cut x (map (quantile x) quantile_list)"

subsection \<open>The arithmetic of the loop\<close>

text \<open>
  What the loop of \<open>ndcg_at_k\<close> computes with, over any type \<open>'f\<close> of floating-point values:
  the number \<open>0\<close> the accumulators start from and the guard appends, the sum \<open>a + x\<close>, the
  discounted gain \<open>v / math.log2(i + 2)\<close> of the cell \<open>v\<close> at loop index \<open>i\<close>, the quotient
  \<open>a / b\<close>, and the test \<open>not b\<close>, true of a zero. The code uses no more. The last two fields
  are not operations of the code: the number \<open>1\<close>, and which values are finite numbers
  (neither an infinity nor not a number).
\<close>

record 'f arith =
  f_zero :: 'f
  f_add :: "'f \<Rightarrow> 'f \<Rightarrow> 'f"
  f_discount :: "real \<Rightarrow> nat \<Rightarrow> 'f"
  f_div :: "'f \<Rightarrow> 'f \<Rightarrow> 'f"
  f_is_zero :: "'f \<Rightarrow> bool"
  f_one :: 'f
  f_finite :: "'f \<Rightarrow> bool"

text \<open>
  Two laws, both true of IEEE doubles. Zeros add up to a zero: \<open>0\<close> is a zero, the discounted
  gain of the cell \<open>0\<close> is a zero, and the sum of two zeros is a zero. The quotient of a finite
  number other than zero by itself is \<open>1\<close>.
\<close>

definition zero_sums :: "'f arith \<Rightarrow> bool" where
  "zero_sums A =
     (f_is_zero A (f_zero A) \<and>
      (\<forall>i. f_is_zero A (f_discount A 0 i)) \<and>
      (\<forall>x y. f_is_zero A x \<and> f_is_zero A y \<longrightarrow> f_is_zero A (f_add A x y)))"

definition self_ratio :: "'f arith \<Rightarrow> bool" where
  "self_ratio A = (\<forall>x. f_finite A x \<and> \<not> f_is_zero A x \<longrightarrow> f_div A x x = f_one A)"

text \<open>Exact real arithmetic, \<open>math.log2\<close> being \<^term>\<open>log 2\<close>. Every value is finite.\<close>

definition exact :: "real arith" where
  "exact =
     \<lparr>f_zero = 0, f_add = (\<lambda>a x. a + x), f_discount = (\<lambda>v i. v / log 2 (real i + 2)),
      f_div = (\<lambda>a b. a / b), f_is_zero = (\<lambda>b. b = 0), f_one = 1, f_finite = (\<lambda>b. True)\<rparr>"

text \<open>
  Exact arithmetic in which a quotient by zero is not a number: \<open>None\<close> is that value. It is
  not a zero, and every operation on it gives it back.
\<close>

definition checked :: "real option arith" where
  "checked =
     \<lparr>f_zero = Some 0,
      f_add = (\<lambda>a x. case a of None \<Rightarrow> None
                 | Some u \<Rightarrow> (case x of None \<Rightarrow> None | Some v \<Rightarrow> Some (u + v))),
      f_discount = (\<lambda>v i. Some (v / log 2 (real i + 2))),
      f_div = (\<lambda>a b. case a of None \<Rightarrow> None
                 | Some u \<Rightarrow> (case b of None \<Rightarrow> None
                     | Some v \<Rightarrow> if v = 0 then None else Some (u / v))),
      f_is_zero = (\<lambda>b. b = Some 0), f_one = Some 1, f_finite = (\<lambda>b. b \<noteq> None)\<rparr>"

subsection \<open>\<open>ndcg_at_k\<close>\<close>

text \<open>
  Lines 44 to 77: the relevance values in evaluation order (\<open>y_pred\<close>), and the caller's
  frame as the call leaves it. With \<open>bins\<close> the code assigns the column \<open>binned\<close> on the frame
  it was given; when the binning raises, nothing has been assigned.
\<close>

definition ordered_relevance ::
  "indexer \<Rightarrow> dataframe \<Rightarrow> int \<Rightarrow> bool \<Rightarrow> (dataframe \<Rightarrow> error + column) \<Rightarrow> error + column" where
  "ordered_relevance ix ds by_col ascending values_of =
     and_then (columns ds by_col) (\<lambda>by_label.
     and_then (sort_values ix ds by_label ascending) (\<lambda>ds_sort.
     values_of ds_sort))"

definition relevance_with ::
  "binning \<Rightarrow> indexer \<Rightarrow> dataframe \<Rightarrow> int \<Rightarrow> int \<Rightarrow> bool \<Rightarrow> bool \<Rightarrow>
     (error + column) \<times> dataframe" where
  "relevance_with B ix ds actual_col pred_col bins reverse =
     (if bins then
        (case iloc ds (actual_col - 1) of
           Inl e \<Rightarrow> (Inl e, ds)
         | Inr x \<Rightarrow>
            (case B x of
               Inl e \<Rightarrow> (Inl e, ds)
             | Inr binned \<Rightarrow>
                (let ds' = setitem ds ''binned'' binned in
                 (if reverse
                  then ordered_relevance ix ds' (actual_col - 1) True
                         (\<lambda>ds_sort. getitem ds_sort ''binned'')
                  else ordered_relevance ix ds' (pred_col - 1) False
                         (\<lambda>ds_sort. getitem ds_sort ''binned''),
                  ds'))))
      else
        (if reverse
         then ordered_relevance ix ds (actual_col - 1) True
                (\<lambda>ds_sort. iloc ds_sort (actual_col - 1))
         else ordered_relevance ix ds (pred_col - 1) False
                (\<lambda>ds_sort. iloc ds_sort (actual_col - 1)),
         ds))"

text \<open>
  Lines 84 to 95: the loop over \<open>range(0, k)\<close>, with its four variables \<open>a\<close>, \<open>b\<close>, \<open>score\<close>
  and \<open>thr\<close>. Reading \<open>y_pred[i]\<close> or \<open>Y_test[i]\<close> past the end raises.
\<close>

fun ndcg_loop_with ::
  "'f arith \<Rightarrow> column \<Rightarrow> column \<Rightarrow> nat list \<Rightarrow> 'f \<Rightarrow> 'f \<Rightarrow> 'f list \<Rightarrow> nat list \<Rightarrow>
     error + ('f \<times> 'f \<times> 'f list \<times> nat list)" where
  "ndcg_loop_with A y_pred Y_test [] a b score thr = Inr (a, b, score, thr)"
| "ndcg_loop_with A y_pred Y_test (i # rest) a b score thr =
     (if length y_pred \<le> i then Inl IndexError
      else let a' = f_add A a (f_discount A (y_pred ! i) i) in
        if length Y_test \<le> i then Inl IndexError
        else let b' = f_add A b (f_discount A (Y_test ! i) i);
                 thr' = thr @ [i];
                 score' = score @ [if f_is_zero A b' then f_zero A else f_div A a' b']
             in ndcg_loop_with A y_pred Y_test rest a' b' score' thr')"

datatype 'f ndcg_result = Score 'f | Curve "'f list" "nat list"

text \<open>Lines 79 to 100: the ideal ordering, the loop, and the value returned.\<close>

definition ndcg_scores_with :: "'f arith \<Rightarrow> column \<Rightarrow> int \<Rightarrow> bool \<Rightarrow> error + 'f ndcg_result" where
  "ndcg_scores_with A y_pred k multiple =
     (let Y_test = rev (sort y_pred) in
      and_then (ndcg_loop_with A y_pred Y_test [0..<nat k] (f_zero A) (f_zero A) [] [])
        (\<lambda>(a, b, score, thr).
           if multiple then Inr (Curve score thr)
           else if score = [] then Inl IndexError
           else Inr (Score (last score))))"

definition ndcg_at_k_with ::
  "'f arith \<Rightarrow> binning \<Rightarrow> indexer \<Rightarrow> dataframe \<Rightarrow> int \<Rightarrow> int \<Rightarrow> int \<Rightarrow> bool \<Rightarrow> bool \<Rightarrow> bool \<Rightarrow>
     (error + 'f ndcg_result) \<times> dataframe" where
  "ndcg_at_k_with A B ix ds k actual_col pred_col bins reverse multiple =
     (case relevance_with B ix ds actual_col pred_col bins reverse of
        (r, ds') \<Rightarrow> (and_then r (\<lambda>y_pred. ndcg_scores_with A y_pred k multiple), ds'))"

text \<open>The function in exact arithmetic, with the exact binning.\<close>

definition relevance ::
  "indexer \<Rightarrow> dataframe \<Rightarrow> int \<Rightarrow> int \<Rightarrow> bool \<Rightarrow> bool \<Rightarrow> (error + column) \<times> dataframe" where
  "relevance ix = relevance_with exact_binning ix"

definition ndcg_loop ::
  "column \<Rightarrow> column \<Rightarrow> nat list \<Rightarrow> real \<Rightarrow> real \<Rightarrow> real list \<Rightarrow> nat list \<Rightarrow>
     error + (real \<times> real \<times> real list \<times> nat list)" where
  "ndcg_loop = ndcg_loop_with exact"

definition ndcg_scores :: "column \<Rightarrow> int \<Rightarrow> bool \<Rightarrow> error + real ndcg_result" where
  "ndcg_scores = ndcg_scores_with exact"

definition ndcg_at_k ::
  "indexer \<Rightarrow> dataframe \<Rightarrow> int \<Rightarrow> int \<Rightarrow> int \<Rightarrow> bool \<Rightarrow> bool \<Rightarrow> bool \<Rightarrow>
     (error + real ndcg_result) \<times> dataframe" where
  "ndcg_at_k ix = ndcg_at_k_with exact exact_binning ix"

text \<open>
  The quantities of the specification. In the arithmetic of the loop: the gain accumulated
  over the first \<open>i\<close> values of an ordering, in loop order, and the score of that prefix. In
  exact arithmetic: the discounted cumulative gain and the normalised score.
\<close>

fun gain :: "'f arith \<Rightarrow> column \<Rightarrow> nat \<Rightarrow> 'f" where
  "gain A r 0 = f_zero A"
| "gain A r (Suc i) = f_add A (gain A r i) (f_discount A (r ! i) i)"

definition score_at :: "'f arith \<Rightarrow> column \<Rightarrow> nat \<Rightarrow> 'f" where
  "score_at A r i =
     (if f_is_zero A (gain A (rev (sort r)) i) then f_zero A
      else f_div A (gain A r i) (gain A (rev (sort r)) i))"

definition dcg :: "column \<Rightarrow> nat \<Rightarrow> real" where
  "dcg r i = (\<Sum>j<i. r ! j / log 2 (real j + 2))"

definition prefix_score :: "column \<Rightarrow> nat \<Rightarrow> real" where
  "prefix_score r i =
     (if dcg (rev (sort r)) i = 0 then 0 else dcg r i / dcg (rev (sort r)) i)"

subsection \<open>\<open>spearman_ds\<close>\<close>

text \<open>
  \<open>scipy.stats.spearmanr\<close> is the Pearson correlation of the ranks of the two samples, ties
  sharing the average of their ranks. Where scipy gives NaN (a sample without variation, fewer
  than two values) the model gives \<open>None\<close>. Cells are reals, so no value is missing and the
  \<open>nan_policy\<close> has nothing to act on. The p-value comes from Student's distribution, which is
  not modelled: it is a parameter \<open>pvalue_of\<close>.
\<close>

datatype nan_policy = Propagate | Raise | Omit

definition rankdata :: "column \<Rightarrow> real list" where
  "rankdata x =
     map (\<lambda>v. real (length (filter (\<lambda>u. u < v) x)) +
              (real (length (filter (\<lambda>u. u = v) x)) + 1) / 2) x"

definition mean :: "real list \<Rightarrow> real" where
  "mean x = sum_list x / real (length x)"

definition pearson :: "real list \<Rightarrow> real list \<Rightarrow> real option" where
  "pearson x y =
     (let mx = mean x;
          my = mean y;
          sxy = (\<Sum>(u, v)\<leftarrow>zip x y. (u - mx) * (v - my));
          sxx = (\<Sum>u\<leftarrow>x. (u - mx) * (u - mx));
          syy = (\<Sum>v\<leftarrow>y. (v - my) * (v - my))
      in if sxx = 0 \<or> syy = 0 then None else Some (sxy / (sqrt sxx * sqrt syy)))"

definition spearmanr :: "column \<Rightarrow> column \<Rightarrow> real option" where
  "spearmanr x y = pearson (rankdata x) (rankdata y)"

datatype spearman_result =
  Coefficient "real option" | CoefficientAndPValue "real option" "real option"

definition spearman_ds ::
  "(column \<Rightarrow> column \<Rightarrow> real option) \<Rightarrow> dataframe \<Rightarrow> int \<Rightarrow> int \<Rightarrow> bool \<Rightarrow> nan_policy \<Rightarrow>
     error + spearman_result" where
  "spearman_ds pvalue_of ds actual_col pred_col p_value policy =
     and_then (iloc ds (actual_col - 1)) (\<lambda>x.
     and_then (iloc ds (pred_col - 1)) (\<lambda>y.
       let Spearman = spearmanr x y; pval = pvalue_of x y
       in if \<not> p_value then Inr (Coefficient Spearman)
          else Inr (CoefficientAndPValue Spearman pval)))"

subsection \<open>Auxiliary notions for the proofs\<close>

text \<open>
  A weighted sum of a list, the weight of position \<open>j\<close> of the list being \<open>w (m + j)\<close>, and
  the weights of the gain truncated at a prefix length.
\<close>

fun wsum :: "(nat \<Rightarrow> real) \<Rightarrow> nat \<Rightarrow> real list \<Rightarrow> real" where
  "wsum w m [] = 0"
| "wsum w m (x # xs) = w m * x + wsum w (Suc m) xs"

definition discount :: "nat \<Rightarrow> nat \<Rightarrow> real" where
  "discount i j = (if j < i then 1 / log 2 (real j + 2) else 0)"

section \<open>Properties of the loop\<close>

lemma ndcg_loop_with_upt:
  "m \<le> n \<Longrightarrow> n \<le> length y \<Longrightarrow> n \<le> length Y \<Longrightarrow>
   ndcg_loop_with A y Y [m..<n] (gain A y m) (gain A Y m) sc th =
     Inr (gain A y n, gain A Y n,
          sc @ map (\<lambda>i. if f_is_zero A (gain A Y (Suc i)) then f_zero A
                        else f_div A (gain A y (Suc i)) (gain A Y (Suc i))) [m..<n],
          th @ [m..<n])"
proof (induction "n - m" arbitrary: m sc th)
  case 0
  then show ?case by simp
next
  case (Suc d)
  then have mn: "m < n" and d: "d = n - Suc m" by auto
  have step: "[m..<n] = m # [Suc m..<n]"
    using mn by (simp add: upt_conv_Cons)
  have IH: "ndcg_loop_with A y Y [Suc m..<n] (gain A y (Suc m)) (gain A Y (Suc m)) sc' th' =
     Inr (gain A y n, gain A Y n,
          sc' @ map (\<lambda>i. if f_is_zero A (gain A Y (Suc i)) then f_zero A
                        else f_div A (gain A y (Suc i)) (gain A Y (Suc i))) [Suc m..<n],
          th' @ [Suc m..<n])" for sc' th'
    using Suc.hyps(1)[OF d] mn Suc.prems by simp
  have lt: "m < length y" "m < length Y"
    using mn Suc.prems by simp_all
  show ?case
    unfolding step using lt IH by (simp add: Let_def del: gain.simps) (simp add: step[symmetric])
qed

lemma ndcg_loop_with_gain:
  assumes "n \<le> length y" "n \<le> length Y"
  shows "ndcg_loop_with A y Y [0..<n] (f_zero A) (f_zero A) [] [] =
     Inr (gain A y n, gain A Y n,
          map (\<lambda>i. if f_is_zero A (gain A Y (Suc i)) then f_zero A
                    else f_div A (gain A y (Suc i)) (gain A Y (Suc i))) [0..<n],
          [0..<n])"
  using ndcg_loop_with_upt[of 0 n y Y A "[]" "[]"] assms by simp

lemma ndcg_loop_with_overrun:
  "m \<le> length y \<Longrightarrow> length y < n \<Longrightarrow> length Y = length y \<Longrightarrow>
   ndcg_loop_with A y Y [m..<n] a b sc th = Inl IndexError"
proof (induction "length y - m" arbitrary: m a b sc th)
  case 0
  then have "m < n" "length y \<le> m" by auto
  then show ?case by (simp add: upt_conv_Cons[OF \<open>m < n\<close>])
next
  case (Suc d)
  then have *: "d = length y - Suc m" "Suc m \<le> length y" "m < n" "m < length y" by auto
  have step: "[m..<n] = m # [Suc m..<n]"
    using * by (simp add: upt_conv_Cons)
  have "ndcg_loop_with A y Y [Suc m..<n] a' b' sc' th' = Inl IndexError" for a' b' sc' th'
    using Suc.hyps(1)[OF *(1,2)] Suc.prems by simp
  then show ?case
    using * Suc.prems by (simp add: step Let_def)
qed

lemma gain_exact: "gain exact r i = dcg r i"
  by (induction i) (simp_all add: dcg_def exact_def)

lemma score_at_exact: "score_at exact r i = prefix_score r i"
  by (simp add: score_at_def prefix_score_def gain_exact) (simp add: exact_def)

lemma ndcg_loop_simps:
  "ndcg_loop y_pred Y_test [] a b score thr = Inr (a, b, score, thr)"
  "ndcg_loop y_pred Y_test (i # rest) a b score thr =
     (if length y_pred \<le> i then Inl IndexError
      else let a' = a + y_pred ! i / log 2 (real i + 2) in
        if length Y_test \<le> i then Inl IndexError
        else let b' = b + Y_test ! i / log 2 (real i + 2);
                 thr' = thr @ [i];
                 score' = score @ [if b' = 0 then 0 else a' / b']
             in ndcg_loop y_pred Y_test rest a' b' score' thr')"
  by (simp_all add: ndcg_loop_def exact_def Let_def)

section \<open>Orderings and the discounted gain\<close>

lemma wsum_sum: "wsum w m xs = (\<Sum>j<length xs. w (m + j) * xs ! j)"
  by (induction xs arbitrary: m) (simp_all add: sum.lessThan_Suc_shift del: sum.lessThan_Suc)

lemma wsum_insort:
  assumes "\<forall>j. w (Suc j) \<le> w j"
  shows "wsum w m (insort x xs) \<le> wsum w m (x # xs)"
proof (induction xs arbitrary: m)
  case Nil
  then show ?case by simp
next
  case (Cons y ys)
  show ?case
  proof (cases "x \<le> y")
    case True
    then show ?thesis by simp
  next
    case False
    have "0 \<le> (w m - w (Suc m)) * (x - y)"
      using assms False by (intro mult_nonneg_nonneg) auto
    then have "w m * y + w (Suc m) * x \<le> w m * x + w (Suc m) * y"
      by (simp add: algebra_simps)
    with Cons.IH[of "Suc m"] False show ?thesis by simp
  qed
qed

lemma wsum_sort_le:
  assumes "\<forall>j. w (Suc j) \<le> w j"
  shows "wsum w m (sort xs) \<le> wsum w m xs"
proof (induction xs arbitrary: m)
  case Nil
  then show ?case by simp
next
  case (Cons x xs)
  have "wsum w m (sort (x # xs)) \<le> wsum w m (x # sort xs)"
    using wsum_insort[OF assms, of m x "sort xs"] by simp
  also have "\<dots> \<le> wsum w m (x # xs)"
    using Cons.IH[of "Suc m"] by simp
  finally show ?case .
qed

lemma wsum_uminus: "wsum w m (map uminus xs) = - wsum w m xs"
  by (induction xs arbitrary: m) simp_all

lemma rev_sort_uminus: "map uminus (rev (sort xs)) = sort (map uminus (xs :: real list))"
proof -
  have "sorted (map uminus (rev (sort xs)))"
    by (simp add: sorted_map sorted_wrt_rev)
  moreover have "mset (map uminus (rev (sort xs))) = mset (map uminus xs)"
    by simp
  ultimately show ?thesis
    by (metis properties_for_sort)
qed

lemma wsum_le_rev_sort:
  assumes "\<forall>j. w (Suc j) \<le> w j"
  shows "wsum w m xs \<le> wsum w m (rev (sort xs))"
proof -
  have "wsum w m (sort (map uminus xs)) \<le> wsum w m (map uminus xs)"
    by (rule wsum_sort_le[OF assms])
  then show ?thesis
    by (simp add: wsum_uminus flip: rev_sort_uminus)
qed

lemma discount_antimono: "discount i (Suc j) \<le> discount i j"
proof -
  have "0 < log 2 (real j + 2)" by simp
  moreover have "log 2 (real j + 2) \<le> log 2 (real (Suc j) + 2)" by simp
  ultimately have "1 / log 2 (real (Suc j) + 2) \<le> 1 / log 2 (real j + 2)"
    by (intro divide_left_mono) auto
  then show ?thesis
    by (auto simp: discount_def)
qed

lemma dcg_wsum: "i \<le> length r \<Longrightarrow> dcg r i = wsum (discount i) 0 r"
proof -
  assume le: "i \<le> length r"
  have "(\<Sum>j<length r. discount i j * r ! j) = (\<Sum>j\<in>{..<i}. discount i j * r ! j)"
    using le by (intro sum.mono_neutral_right) (auto simp: discount_def)
  also have "\<dots> = dcg r i"
    by (simp add: dcg_def discount_def)
  finally show ?thesis by (simp add: wsum_sum)
qed

lemma dcg_le_ideal: "i \<le> length r \<Longrightarrow> dcg r i \<le> dcg (rev (sort r)) i"
  using wsum_le_rev_sort[of "discount i" 0 r] by (simp add: dcg_wsum discount_antimono)

lemma dcg_sort_le: "i \<le> length r \<Longrightarrow> dcg (sort r) i \<le> dcg r i"
  using wsum_sort_le[of "discount i" 0 r] by (simp add: dcg_wsum discount_antimono)

lemma dcg_nonneg: "i \<le> length r \<Longrightarrow> \<forall>v\<in>set r. 0 \<le> v \<Longrightarrow> 0 \<le> dcg r i"
  unfolding dcg_def by (intro sum_nonneg divide_nonneg_nonneg) auto

section \<open>The library's sort\<close>

lemma sorts_by_mset: "sorts_by ix \<Longrightarrow> mset (ix asc keys) = mset [0..<length keys]"
  unfolding sorts_by_def by blast

lemma sorts_by_ordered: "sorts_by ix \<Longrightarrow> key_ordered asc keys (ix asc keys)"
  unfolding sorts_by_def by blast

lemma sorts_by_length: "sorts_by ix \<Longrightarrow> length (ix asc keys) = length keys"
  using mset_eq_length[OF sorts_by_mset[of ix asc keys]] by simp

lemma sorts_by_set: "sorts_by ix \<Longrightarrow> set (ix asc keys) = {0..<length keys}"
  using mset_eq_setD[OF sorts_by_mset[of ix asc keys]] by simp

lemma mset_take_positions:
  assumes "mset idx = mset [0..<length c]"
  shows "mset (map (\<lambda>i. c ! i) idx) = mset c"
proof -
  have "image_mset (\<lambda>i. c ! i) (mset idx) = image_mset (\<lambda>i. c ! i) (mset [0..<length c])"
    by (simp only: assms)
  then have "mset (map (\<lambda>i. c ! i) idx) = mset (map (\<lambda>i. c ! i) [0..<length c])"
    by (simp only: mset_map)
  then show ?thesis
    by (simp only: map_nth)
qed

lemma sorts_by_stable: "sorts_by stable_indexer"
  unfolding sorts_by_def key_ordered_def stable_indexer_def
  by simp

lemma filter_single:
  assumes "distinct ys" "k \<in> set ys" "\<forall>x\<in>set ys. P x \<longleftrightarrow> x = k"
  shows "filter P ys = [k]"
  using assms by (induction ys) (auto simp: filter_empty_conv)

lemma sorted_positions_unique:
  assumes d: "distinct keys"
    and m: "mset ys = mset xs" and xs: "set xs = {0..<length keys}" "distinct xs"
    and s: "sorted (map (\<lambda>i. keys ! i) ys)"
  shows "sort_key (\<lambda>i. keys ! i) xs = ys"
proof (rule properties_for_sort_key[OF m _ s])
  fix k assume k: "k \<in> set ys"
  have sy: "set ys = {0..<length keys}" "distinct ys"
    using mset_eq_setD[OF m] mset_eq_imp_distinct_iff[OF m] xs by simp_all
  have inj: "\<And>x. x < length keys \<Longrightarrow> (keys ! k = keys ! x) = (x = k)"
    using d k sy by (auto simp: nth_eq_iff_index_eq)
  have "filter (\<lambda>x. keys ! k = keys ! x) ys = [k]"
    using sy k inj by (intro filter_single) auto
  moreover have "filter (\<lambda>x. keys ! k = keys ! x) xs = [k]"
    using xs k sy inj by (intro filter_single) auto
  ultimately show "filter (\<lambda>x. keys ! k = keys ! x) ys = filter (\<lambda>x. keys ! k = keys ! x) xs"
    by simp
qed

lemma sorts_by_distinct_keys:
  assumes "sorts_by ix" "distinct keys"
  shows "ix asc keys = stable_indexer asc keys"
proof -
  note m = sorts_by_mset[OF assms(1), of asc keys]
  note o = sorts_by_ordered[OF assms(1), of asc keys]
  show ?thesis
  proof (cases asc)
    case True
    have "sort_key (\<lambda>i. keys ! i) [0..<length keys] = ix asc keys"
      using assms(2) m o True
      by (intro sorted_positions_unique) (simp_all add: key_ordered_def)
    with True show ?thesis by (simp add: stable_indexer_def)
  next
    case False
    have "sort_key (\<lambda>i. keys ! i) (rev [0..<length keys]) = rev (ix asc keys)"
      using assms(2) m o False
      by (intro sorted_positions_unique) (simp_all add: key_ordered_def)
    with False show ?thesis by (simp add: stable_indexer_def)
  qed
qed

section \<open>The scores of a call\<close>

lemma ndcg_scores_with_within:
  assumes "nat k \<le> length y"
  shows "ndcg_scores_with A y k multiple =
     (if multiple then Inr (Curve (map (\<lambda>i. score_at A y (Suc i)) [0..<nat k]) [0..<nat k])
      else if k \<le> 0 then Inl IndexError
      else Inr (Score (score_at A y (nat k))))"
proof -
  have "ndcg_loop_with A y (rev (sort y)) [0..<nat k] (f_zero A) (f_zero A) [] [] =
     Inr (gain A y (nat k), gain A (rev (sort y)) (nat k),
          map (\<lambda>i. score_at A y (Suc i)) [0..<nat k], [0..<nat k])"
    using assms by (simp add: ndcg_loop_with_gain score_at_def del: gain.simps)
  moreover have "last (map (\<lambda>i. score_at A y (Suc i)) [0..<nat k]) = score_at A y (nat k)"
    if "0 < k"
  proof -
    from that obtain j where j: "nat k = Suc j" by (cases "nat k") auto
    show ?thesis by (simp add: j del: gain.simps)
  qed
  ultimately show ?thesis
    by (auto simp: ndcg_scores_with_def and_then_def)
qed

lemma ndcg_scores_with_overrun:
  assumes "int (length y) < k"
  shows "ndcg_scores_with A y k multiple = Inl IndexError"
  using assms ndcg_loop_with_overrun[of 0 y "nat k" "rev (sort y)" A "f_zero A" "f_zero A" "[]" "[]"]
  by (simp add: ndcg_scores_with_def and_then_def)

lemma ndcg_at_k_with_fst:
  "fst (ndcg_at_k_with A B ix ds k actual_col pred_col bins reverse multiple) =
     and_then (fst (relevance_with B ix ds actual_col pred_col bins reverse))
       (\<lambda>y_pred. ndcg_scores_with A y_pred k multiple)"
  by (simp add: ndcg_at_k_with_def split: prod.splits)

lemma ndcg_at_k_with_snd:
  "snd (ndcg_at_k_with A B ix ds k actual_col pred_col bins reverse multiple) =
     snd (relevance_with B ix ds actual_col pred_col bins reverse)"
  by (simp add: ndcg_at_k_with_def split: prod.splits)

lemma ndcg_at_k_with_within:
  assumes "fst (relevance_with B ix ds actual_col pred_col bins reverse) = Inr ys"
    and "1 \<le> k" "k \<le> int (length ys)"
  shows "fst (ndcg_at_k_with A B ix ds k actual_col pred_col bins reverse True) =
           Inr (Curve (map (\<lambda>i. score_at A ys (Suc i)) [0..<nat k]) [0..<nat k])"
    and "fst (ndcg_at_k_with A B ix ds k actual_col pred_col bins reverse False) =
           Inr (Score (score_at A ys (nat k)))"
proof -
  have le: "nat k \<le> length ys" using assms(3) by linarith
  show "fst (ndcg_at_k_with A B ix ds k actual_col pred_col bins reverse True) =
           Inr (Curve (map (\<lambda>i. score_at A ys (Suc i)) [0..<nat k]) [0..<nat k])"
    by (simp add: ndcg_at_k_with_fst assms(1) and_then_def ndcg_scores_with_within[OF le])
  show "fst (ndcg_at_k_with A B ix ds k actual_col pred_col bins reverse False) =
           Inr (Score (score_at A ys (nat k)))"
    using assms(2) by (simp add: ndcg_at_k_with_fst assms(1) and_then_def ndcg_scores_with_within[OF le])
qed

text \<open>The same in exact arithmetic.\<close>

lemma relevance_unfold:
  "relevance ix ds actual_col pred_col bins reverse =
     relevance_with exact_binning ix ds actual_col pred_col bins reverse"
  by (simp add: relevance_def)

lemma ndcg_at_k_unfold:
  "ndcg_at_k ix ds k actual_col pred_col bins reverse multiple =
     ndcg_at_k_with exact exact_binning ix ds k actual_col pred_col bins reverse multiple"
  by (simp add: ndcg_at_k_def)

lemma relevance_exact:
  "relevance ix ds actual_col pred_col bins reverse =
     (if bins then
        (case iloc ds (actual_col - 1) of
           Inl e \<Rightarrow> (Inl e, ds)
         | Inr x \<Rightarrow>
            (case cut x (map (quantile x) quantile_list) of
               Inl e \<Rightarrow> (Inl e, ds)
             | Inr binned \<Rightarrow>
                (let ds' = setitem ds ''binned'' binned in
                 (if reverse
                  then ordered_relevance ix ds' (actual_col - 1) True
                         (\<lambda>ds_sort. getitem ds_sort ''binned'')
                  else ordered_relevance ix ds' (pred_col - 1) False
                         (\<lambda>ds_sort. getitem ds_sort ''binned''),
                  ds'))))
      else
        (if reverse
         then ordered_relevance ix ds (actual_col - 1) True
                (\<lambda>ds_sort. iloc ds_sort (actual_col - 1))
         else ordered_relevance ix ds (pred_col - 1) False
                (\<lambda>ds_sort. iloc ds_sort (actual_col - 1)),
         ds))"
  unfolding relevance_def relevance_with_def exact_binning_def by (rule refl)

lemma ndcg_at_k_exact:
  "ndcg_at_k ix ds k actual_col pred_col bins reverse multiple =
     (case relevance ix ds actual_col pred_col bins reverse of
        (r, ds') \<Rightarrow> (and_then r (\<lambda>y_pred. ndcg_scores y_pred k multiple), ds'))"
  by (simp add: ndcg_at_k_def ndcg_at_k_with_def relevance_def ndcg_scores_def)

lemma ndcg_scores_unfold:
  "ndcg_scores y_pred k multiple =
     (let Y_test = rev (sort y_pred) in
      and_then (ndcg_loop y_pred Y_test [0..<nat k] 0 0 [] []) (\<lambda>(a, b, score, thr).
        if multiple then Inr (Curve score thr)
        else if score = [] then Inl IndexError
        else Inr (Score (last score))))"
  by (simp add: ndcg_scores_def ndcg_scores_with_def ndcg_loop_def) (simp add: exact_def)

lemma ndcg_scores_within:
  assumes "nat k \<le> length y"
  shows "ndcg_scores y k multiple =
     (if multiple then Inr (Curve (map (\<lambda>i. prefix_score y (Suc i)) [0..<nat k]) [0..<nat k])
      else if k \<le> 0 then Inl IndexError
      else Inr (Score (prefix_score y (nat k))))"
  unfolding ndcg_scores_def using ndcg_scores_with_within[OF assms, of exact multiple]
  by (simp add: score_at_exact)

lemma ndcg_scores_overrun:
  assumes "int (length y) < k"
  shows "ndcg_scores y k multiple = Inl IndexError"
  unfolding ndcg_scores_def using assms by (rule ndcg_scores_with_overrun)

lemma ndcg_at_k_fst:
  "fst (ndcg_at_k ix ds k actual_col pred_col bins reverse multiple) =
     and_then (fst (relevance ix ds actual_col pred_col bins reverse))
       (\<lambda>y_pred. ndcg_scores y_pred k multiple)"
  by (simp add: ndcg_at_k_def relevance_def ndcg_scores_def ndcg_at_k_with_fst)

lemma ndcg_at_k_snd:
  "snd (ndcg_at_k ix ds k actual_col pred_col bins reverse multiple) =
     snd (relevance ix ds actual_col pred_col bins reverse)"
  by (simp add: ndcg_at_k_def relevance_def ndcg_at_k_with_snd)

section \<open>Frames\<close>

lemma py_pos_valid:
  "1 \<le> c \<Longrightarrow> c \<le> int (length xs) \<Longrightarrow> py_pos xs (c - 1) = Inr (xs ! nat (c - 1))"
  by (simp add: py_pos_def)

lemma py_pos_in: "py_pos xs c = Inr x \<Longrightarrow> x \<in> set xs"
  by (auto simp: py_pos_def split: if_splits)

lemma iloc_in: "iloc ds c = Inr col \<Longrightarrow> \<exists>name. (name, col) \<in> set ds"
  by (cases "py_pos ds c") (auto simp: iloc_def and_then_def dest!: py_pos_in)

lemma columns_in: "columns ds c = Inr name \<Longrightarrow> \<exists>col. (name, col) \<in> set ds"
  by (cases "py_pos ds c") (auto simp: columns_def and_then_def dest!: py_pos_in)

lemma filter_singleton_unique:
  assumes "filter P xs = [c]" "x \<in> set xs" "P x"
  shows "x = c"
proof -
  from assms(2,3) have "x \<in> set (filter P xs)" by simp
  then show ?thesis by (simp add: assms(1))
qed

lemma getitem_Inr:
  "getitem ds name = Inr col \<longleftrightarrow> (\<exists>c. filter (\<lambda>c. fst c = name) ds = [c] \<and> snd c = col)"
  by (auto simp: getitem_def split: list.splits)

lemma getitem_in: "getitem ds name = Inr col \<Longrightarrow> (name, col) \<in> set ds"
proof -
  assume "getitem ds name = Inr col"
  then obtain c where c: "filter (\<lambda>c. fst c = name) ds = [c]" "snd c = col"
    by (auto simp: getitem_Inr)
  then have "c \<in> set (filter (\<lambda>c. fst c = name) ds)" by simp
  then have "c \<in> set ds" "fst c = name" by auto
  with c(2) show ?thesis by (cases c) auto
qed

lemma getitem_unique:
  assumes "getitem ds name = Inr col" "(name, col') \<in> set ds"
  shows "col' = col"
proof -
  from assms(1) obtain c where c: "filter (\<lambda>c. fst c = name) ds = [c]" "snd c = col"
    by (auto simp: getitem_Inr)
  from filter_singleton_unique[OF c(1) assms(2)] have "(name, col') = c" by simp
  with c(2) show ?thesis by auto
qed

lemma getitem_distinct:
  assumes "distinct (map fst ds)" "(name, col) \<in> set ds"
  shows "getitem ds name = Inr col"
proof -
  have "filter (\<lambda>c. fst c = name) ds = [(name, col)]"
    using assms
  proof (induction ds)
    case Nil
    then show ?case by simp
  next
    case (Cons c ds)
    show ?case
    proof (cases "c = (name, col)")
      case True
      with Cons.prems(1) have "\<forall>x\<in>set ds. fst x \<noteq> name" by force
      then have "filter (\<lambda>c. fst c = name) ds = []" by (simp add: filter_empty_conv)
      with True show ?thesis by simp
    next
      case False
      with Cons.prems have in_ds: "(name, col) \<in> set ds" by simp
      then have "name \<in> fst ` set ds" by force
      with Cons.prems(1) have "fst c \<noteq> name" by auto
      with Cons.IH in_ds Cons.prems(1) show ?thesis by simp
    qed
  qed
  then show ?thesis by (simp add: getitem_def)
qed

lemma frame_ok_length: "frame_ok ds \<Longrightarrow> (name, col) \<in> set ds \<Longrightarrow> length col = nrows ds"
  by (auto simp: frame_ok_def list_all_iff)

lemma take_rows_length: "length (take_rows idx ds) = length ds"
  by (simp add: take_rows_def)

lemma take_rows_nth:
  "j < length ds \<Longrightarrow> take_rows idx ds ! j = (fst (ds ! j), map (\<lambda>i. snd (ds ! j) ! i) idx)"
  by (simp add: take_rows_def)

lemma take_rows_in:
  "(name, col) \<in> set (take_rows idx ds) \<Longrightarrow>
     \<exists>c. (name, c) \<in> set ds \<and> col = map (\<lambda>i. c ! i) idx"
  by (auto simp: take_rows_def)

lemma filter_take_rows:
  "filter (\<lambda>c. fst c = name) (take_rows idx ds) = take_rows idx (filter (\<lambda>c. fst c = name) ds)"
  by (induction ds) (simp_all add: take_rows_def)

lemma getitem_take_rows:
  "getitem (take_rows idx ds) name =
     and_then (getitem ds name) (\<lambda>c. Inr (map (\<lambda>i. c ! i) idx))"
  unfolding getitem_def filter_take_rows
  by (cases "filter (\<lambda>c. fst c = name) ds")
     (auto simp: take_rows_def and_then_def split: list.splits)

lemma py_pos_take_rows:
  "py_pos (take_rows idx ds) c =
     and_then (py_pos ds c) (\<lambda>col. Inr (fst col, map (\<lambda>i. snd col ! i) idx))"
proof -
  have "nat c < length ds" if "0 \<le> c" "c < int (length ds)"
    using that by linarith
  moreover have "nat (c + int (length ds)) < length ds" if "- int (length ds) \<le> c" "c < 0"
    using that by linarith
  ultimately show ?thesis
    by (auto simp: py_pos_def and_then_def take_rows_length take_rows_nth)
qed

lemma iloc_take_rows:
  "iloc (take_rows idx ds) c = and_then (iloc ds c) (\<lambda>col. Inr (map (\<lambda>i. col ! i) idx))"
  by (cases "py_pos ds c") (simp_all add: iloc_def py_pos_take_rows and_then_def)

lemma columns_take_rows: "columns (take_rows idx ds) c = columns ds c"
  by (cases "py_pos ds c") (simp_all add: columns_def py_pos_take_rows and_then_def)

section \<open>What a call does to reach the relevance values\<close>

lemma set_setitem_subset: "set (setitem ds name col) \<subseteq> insert (name, col) (set ds)"
  by (auto simp: setitem_def)

lemma setitem_in: "(name, col) \<in> set (setitem ds name col)"
  by (auto simp: setitem_def)

lemma setitem_nth:
  "j < length ds \<Longrightarrow>
   setitem ds name col ! j = (if fst (ds ! j) = name then (name, col) else ds ! j)"
  by (auto simp: setitem_def nth_append)

lemma length_setitem:
  "length (setitem ds name col) = (if name \<in> fst ` set ds then length ds else Suc (length ds))"
  by (simp add: setitem_def)

lemma length_setitem_ge: "length ds \<le> length (setitem ds name col)"
  by (simp add: length_setitem)

lemma setitem_named:
  "c \<in> set (setitem ds name col) \<Longrightarrow> fst c = name \<Longrightarrow> snd c = col"
  by (cases c) (force simp: setitem_def split: if_splits)

lemma nrows_setitem:
  "ds \<noteq> [] \<Longrightarrow> length col = nrows ds \<Longrightarrow> nrows (setitem ds name col) = nrows ds"
  by (cases ds) (auto simp: setitem_def nrows_def)

lemma frame_ok_setitem:
  assumes "frame_ok ds" "ds \<noteq> []" "length col = nrows ds"
  shows "frame_ok (setitem ds name col)"
proof -
  have "length (snd c) = nrows ds" if "c \<in> set (setitem ds name col)" for c
  proof -
    from that set_setitem_subset[of ds name col] have "c = (name, col) \<or> c \<in> set ds"
      by auto
    then show ?thesis
      using assms(1,3) by (auto simp: frame_ok_def list_all_iff)
  qed
  then show ?thesis
    by (simp add: frame_ok_def list_all_iff nrows_setitem[OF assms(2,3)])
qed

lemma ordered_relevance_Inr:
  assumes "ordered_relevance ix ds c ascending values_of = Inr ys"
  shows "\<exists>label keys. columns ds c = Inr label \<and> getitem ds label = Inr keys \<and>
           values_of (take_rows (ix ascending keys) ds) = Inr ys"
  using assms
  by (auto simp: ordered_relevance_def sort_values_def and_then_def split: sum.splits)

lemma relevance_with_snd:
  "snd (relevance_with B ix ds actual_col pred_col bins reverse) =
     (if bins then
        (case iloc ds (actual_col - 1) of
           Inl e \<Rightarrow> ds
         | Inr x \<Rightarrow>
            (case B x of
               Inl e \<Rightarrow> ds
             | Inr binned \<Rightarrow> setitem ds ''binned'' binned))
      else ds)"
  by (simp add: relevance_with_def Let_def split: sum.splits)

text \<open>What a call that got as far as the relevance values has done on the way.\<close>

lemma relevance_with_Inr:
  assumes "fst (relevance_with B ix ds actual_col pred_col bins reverse) = Inr ys"
  shows "\<exists>ds' label keys rel.
           ds' = snd (relevance_with B ix ds actual_col pred_col bins reverse) \<and>
           columns ds' (if reverse then actual_col - 1 else pred_col - 1) = Inr label \<and>
           getitem ds' label = Inr keys \<and>
           (if bins then getitem ds' ''binned'' = Inr rel else iloc ds' (actual_col - 1) = Inr rel) \<and>
           ys = map (\<lambda>i. rel ! i) (ix reverse keys)"
proof (cases bins)
  case False
  with assms have "ordered_relevance ix ds (if reverse then actual_col - 1 else pred_col - 1)
      reverse (\<lambda>ds_sort. iloc ds_sort (actual_col - 1)) = Inr ys"
    by (auto simp: relevance_with_def split: if_splits)
  from ordered_relevance_Inr[OF this] obtain label keys where
    l: "columns ds (if reverse then actual_col - 1 else pred_col - 1) = Inr label"
    and k: "getitem ds label = Inr keys"
    and v: "iloc (take_rows (ix reverse keys) ds) (actual_col - 1) = Inr ys"
    by blast
  from v obtain rel where "iloc ds (actual_col - 1) = Inr rel"
    "ys = map (\<lambda>i. rel ! i) (ix reverse keys)"
    by (auto simp: iloc_take_rows and_then_def split: sum.splits)
  with l k False show ?thesis
    by (auto simp: relevance_with_snd)
next
  case True
  with assms obtain x binned where x: "iloc ds (actual_col - 1) = Inr x"
    and c: "B x = Inr binned"
    by (auto simp: relevance_with_def split: sum.splits)
  define ds' where "ds' = setitem ds ''binned'' binned"
  have snd: "snd (relevance_with B ix ds actual_col pred_col bins reverse) = ds'"
    using True x c by (simp add: relevance_with_snd ds'_def)
  from assms True x c have "ordered_relevance ix ds' (if reverse then actual_col - 1 else pred_col - 1)
      reverse (\<lambda>ds_sort. getitem ds_sort ''binned'') = Inr ys"
    by (auto simp: relevance_with_def ds'_def Let_def split: if_splits)
  from ordered_relevance_Inr[OF this] obtain label keys where
    l: "columns ds' (if reverse then actual_col - 1 else pred_col - 1) = Inr label"
    and k: "getitem ds' label = Inr keys"
    and v: "getitem (take_rows (ix reverse keys) ds') ''binned'' = Inr ys"
    by blast
  from v obtain rel where "getitem ds' ''binned'' = Inr rel"
    "ys = map (\<lambda>i. rel ! i) (ix reverse keys)"
    by (auto simp: getitem_take_rows and_then_def split: sum.splits)
  with l k True snd show ?thesis
    by auto
qed

lemma relevance_with_bins_Inr:
  assumes "fst (relevance_with B ix ds actual_col pred_col True reverse) = Inr ys"
  shows "\<exists>x g. iloc ds (actual_col - 1) = Inr x \<and> B x = Inr g \<and>
           snd (relevance_with B ix ds actual_col pred_col True reverse) = setitem ds ''binned'' g"
proof -
  from assms obtain x binned where x: "iloc ds (actual_col - 1) = Inr x"
    and c: "B x = Inr binned"
    by (auto simp: relevance_with_def split: sum.splits)
  then show ?thesis
    by (simp add: relevance_with_snd)
qed

lemma relevance_with_frame_ok:
  assumes "keeps_rows B" "frame_ok ds"
  shows "frame_ok (snd (relevance_with B ix ds actual_col pred_col bins reverse)) \<and>
         nrows (snd (relevance_with B ix ds actual_col pred_col bins reverse)) = nrows ds"
proof (cases "bins \<and> (\<exists>x binned. iloc ds (actual_col - 1) = Inr x \<and> B x = Inr binned)")
  case False
  then have "snd (relevance_with B ix ds actual_col pred_col bins reverse) = ds"
    by (auto simp: relevance_with_snd split: sum.splits)
  with assms show ?thesis by simp
next
  case True
  then obtain x binned where x: "iloc ds (actual_col - 1) = Inr x"
    and c: "B x = Inr binned" by blast
  from iloc_in[OF x] obtain name where in_ds: "(name, x) \<in> set ds" by blast
  then have ne: "ds \<noteq> []" by auto
  have "length binned = length x"
    using assms(1) c unfolding keeps_rows_def by blast
  then have len: "length binned = nrows ds"
    using frame_ok_length[OF assms(2) in_ds] by simp
  have "snd (relevance_with B ix ds actual_col pred_col bins reverse) = setitem ds ''binned'' binned"
    using True x c by (simp add: relevance_with_snd)
  then show ?thesis
    using frame_ok_setitem[OF assms(2) ne len] nrows_setitem[OF ne len] by simp
qed

lemma relevance_with_length:
  assumes "sorts_by ix" "keeps_rows B" "frame_ok ds"
    and "fst (relevance_with B ix ds actual_col pred_col bins reverse) = Inr ys"
  shows "length ys = nrows ds"
proof -
  from relevance_with_Inr[OF assms(4)] obtain ds' label keys where
    ds': "ds' = snd (relevance_with B ix ds actual_col pred_col bins reverse)"
    and k: "getitem ds' label = Inr keys"
    and ys: "length ys = length (ix reverse keys)"
    by auto
  from relevance_with_frame_ok[OF assms(2,3)] ds' have ok: "frame_ok ds'" "nrows ds' = nrows ds"
    by simp_all
  have "length keys = nrows ds"
    using frame_ok_length[OF ok(1) getitem_in[OF k]] ok(2) by simp
  with ys show ?thesis
    by (simp add: sorts_by_length[OF assms(1)])
qed

lemma iloc_valid:
  "1 \<le> c \<Longrightarrow> c \<le> int (length ds) \<Longrightarrow> iloc ds (c - 1) = Inr (snd (ds ! nat (c - 1)))"
  by (simp add: iloc_def py_pos_valid and_then_def)

lemma columns_valid:
  "1 \<le> c \<Longrightarrow> c \<le> int (length ds) \<Longrightarrow> columns ds (c - 1) = Inr (fst (ds ! nat (c - 1)))"
  by (simp add: columns_def py_pos_valid and_then_def)

lemma getitem_nth:
  assumes "distinct (map fst ds)" "j < length ds"
  shows "getitem ds (fst (ds ! j)) = Inr (snd (ds ! j))"
proof -
  have "(fst (ds ! j), snd (ds ! j)) \<in> set ds"
    using assms(2) by simp
  with assms(1) show ?thesis by (rule getitem_distinct)
qed

lemma relevance_with_plain:
  assumes "distinct (map fst ds)"
    and "1 \<le> actual_col" "actual_col \<le> int (length ds)"
    and "1 \<le> pred_col" "pred_col \<le> int (length ds)"
  shows "relevance_with B ix ds actual_col pred_col False reverse =
           (Inr (map (\<lambda>i. snd (ds ! nat (actual_col - 1)) ! i)
                   (ix reverse (snd (ds ! nat ((if reverse then actual_col else pred_col) - 1))))),
            ds)"
proof -
  have a: "nat (actual_col - 1) < length ds" and p: "nat (pred_col - 1) < length ds"
    using assms(2-5) by linarith+
  show ?thesis
    using assms
    by (simp add: relevance_with_def ordered_relevance_def columns_valid sort_values_def
        getitem_nth[OF assms(1) a] getitem_nth[OF assms(1) p] and_then_def
        iloc_take_rows iloc_valid)
qed

section \<open>Grades are monotone in the value\<close>

lemma cut_Inr:
  "cut x edges = Inr binned \<longleftrightarrow>
     x \<noteq> [] \<and> distinct edges \<and> binned = map (cut_label edges) x"
  by (auto simp: cut_def)

lemma takeWhile_length_mono:
  "(\<And>x. P x \<Longrightarrow> Q x) \<Longrightarrow> length (takeWhile P xs) \<le> length (takeWhile Q xs)"
  by (induction xs) auto

lemma cut_label_mono:
  assumes "edges \<noteq> []" "hd edges \<le> u" "u \<le> v"
  shows "cut_label edges u \<le> cut_label edges v"
proof -
  obtain e es where edges: "edges = e # es" using assms(1) by (cases edges) auto
  have ge1: "1 \<le> searchsorted_left edges w" if "e < w" for w
    using that by (simp add: searchsorted_left_def edges)
  show ?thesis
  proof (cases "u = e")
    case True
    then show ?thesis
      using ge1[of v] assms(3) by (auto simp: cut_label_def edges)
  next
    case False
    with assms(2) have "e < u" by (simp add: edges)
    with assms(3) have "e < v" by simp
    have "searchsorted_left edges u \<le> searchsorted_left edges v"
      unfolding searchsorted_left_def using assms(3) by (intro takeWhile_length_mono) auto
    then show ?thesis
      using \<open>e < u\<close> \<open>e < v\<close> by (simp add: cut_label_def edges)
  qed
qed

lemma quantile_zero: "quantile x 0 = sort x ! 0"
  by (simp add: quantile_def)

lemma lowest_edge_le:
  assumes "u \<in> set x"
  shows "hd (map (quantile x) quantile_list) \<le> u"
proof -
  from assms have "u \<in> set (sort x)" by simp
  then obtain i where i: "i < length (sort x)" "sort x ! i = u"
    unfolding in_set_conv_nth by blast
  have "sort x ! 0 \<le> sort x ! i"
    using i(1) by (intro sorted_nth_mono) auto
  then show ?thesis
    by (simp add: quantile_list_def quantile_zero i(2))
qed

lemma keeps_rows_exact: "keeps_rows exact_binning"
  by (auto simp: keeps_rows_def exact_binning_def cut_Inr)

lemma grades_monotone_exact: "grades_monotone exact_binning"
proof -
  have "g ! i \<le> g ! j"
    if g: "exact_binning x = Inr g" and i: "i < length x" and j: "j < length x"
      and le: "x ! i \<le> x ! j" for x g i j
  proof -
    let ?edges = "map (quantile x) quantile_list"
    have ne: "?edges \<noteq> []" by (simp add: quantile_list_def)
    from g have g_eq: "g = map (cut_label ?edges) x"
      by (simp add: exact_binning_def cut_Inr)
    have "x ! i \<in> set x" using i by simp
    from cut_label_mono[OF ne lowest_edge_le[OF this] le] show ?thesis
      using i j by (simp add: g_eq)
  qed
  then show ?thesis
    unfolding grades_monotone_def by blast
qed

lemma sorted_grades:
  assumes "grades_monotone B" "B x = Inr g"
    and "sorted (map (\<lambda>i. x ! i) idx)" "set idx \<subseteq> {0..<length x}"
  shows "sorted (map (\<lambda>i. g ! i) idx)"
proof -
  have mono: "g ! i \<le> g ! j" if "i < length x" "j < length x" "x ! i \<le> x ! j" for i j
    using assms(1,2) that unfolding grades_monotone_def by blast
  have "sorted_wrt (\<lambda>i j. x ! i \<le> x ! j) idx"
    using assms(3) by (simp add: sorted_map)
  then have "sorted_wrt (\<lambda>i j. g ! i \<le> g ! j) idx"
    by (rule sorted_wrt_mono_rel[rotated]) (use assms(4) mono in \<open>auto simp: subset_iff\<close>)
  then show ?thesis by (simp add: sorted_map)
qed

section \<open>The two arithmetics\<close>

lemma zero_sums_exact: "zero_sums exact"
  by (simp add: zero_sums_def exact_def)

lemma self_ratio_exact: "self_ratio exact"
  by (simp add: self_ratio_def exact_def)


lemma self_ratio_checked: "self_ratio checked"
  by (auto simp: self_ratio_def checked_def split: if_splits)

section \<open>Two orderings of the same data\<close>

lemma baseline_and_prediction:
  assumes ix: "sorts_by ix" and mono: "grades_monotone B" and rows: "keeps_rows B"
    and ok: "frame_ok ds"
    and a: "1 \<le> actual_col" "actual_col \<le> int (length ds)"
    and yb: "fst (relevance_with B ix ds actual_col pred_col bins True) = Inr yb"
    and yp: "fst (relevance_with B ix ds actual_col pred_col bins False) = Inr yp"
  shows "sorted yb \<and> mset yb = mset yp"
proof -
  define ds' where "ds' = snd (relevance_with B ix ds actual_col pred_col bins True)"
  have ds'_p: "snd (relevance_with B ix ds actual_col pred_col bins False) = ds'"
    by (simp add: ds'_def relevance_with_snd)
  from relevance_with_frame_ok[OF rows ok, of ix actual_col pred_col bins True]
  have ok': "frame_ok ds'" "nrows ds' = nrows ds" by (simp_all add: ds'_def)
  define j where "j = nat (actual_col - 1)"
  have j: "j < length ds" using a unfolding j_def by linarith
  from relevance_with_Inr[OF yb]
  have "\<exists>label keys rel. columns ds' (actual_col - 1) = Inr label \<and>
      getitem ds' label = Inr keys \<and>
      (if bins then getitem ds' ''binned'' = Inr rel else iloc ds' (actual_col - 1) = Inr rel) \<and>
      yb = map (\<lambda>i. rel ! i) (ix True keys)"
    unfolding ds'_def by simp
  then obtain label keys rel where
    l: "columns ds' (actual_col - 1) = Inr label"
    and k: "getitem ds' label = Inr keys"
    and r: "if bins then getitem ds' ''binned'' = Inr rel else iloc ds' (actual_col - 1) = Inr rel"
    and yb_eq: "yb = map (\<lambda>i. rel ! i) (ix True keys)"
    by blast
  from relevance_with_Inr[OF yp]
  have "\<exists>label keys rel. columns ds' (pred_col - 1) = Inr label \<and>
      getitem ds' label = Inr keys \<and>
      (if bins then getitem ds' ''binned'' = Inr rel else iloc ds' (actual_col - 1) = Inr rel) \<and>
      yp = map (\<lambda>i. rel ! i) (ix False keys)"
    unfolding ds'_p by simp
  then obtain label' keys' rel' where
    k': "getitem ds' label' = Inr keys'"
    and r': "if bins then getitem ds' ''binned'' = Inr rel' else iloc ds' (actual_col - 1) = Inr rel'"
    and yp_eq: "yp = map (\<lambda>i. rel' ! i) (ix False keys')"
    by blast
  from r r' have rel': "rel' = rel" by (auto split: if_splits)
  have len_keys: "length keys = nrows ds" "length keys' = nrows ds"
    using frame_ok_length[OF ok'(1) getitem_in[OF k]] frame_ok_length[OF ok'(1) getitem_in[OF k']]
      ok'(2) by simp_all
  have len_rel: "length rel = nrows ds"
  proof (cases bins)
    case True
    with r have "getitem ds' ''binned'' = Inr rel" by simp
    from frame_ok_length[OF ok'(1) getitem_in[OF this]] ok'(2) show ?thesis by simp
  next
    case False
    with r have "iloc ds' (actual_col - 1) = Inr rel" by simp
    from iloc_in[OF this] obtain name where "(name, rel) \<in> set ds'" by blast
    from frame_ok_length[OF ok'(1) this] ok'(2) show ?thesis by simp
  qed
  have pb: "mset (ix True keys) = mset [0..<length rel]"
    and pp: "mset (ix False keys') = mset [0..<length rel]"
    using sorts_by_mset[OF ix] len_keys len_rel by simp_all
  have m: "mset yb = mset rel" "mset yp = mset rel"
    unfolding yb_eq yp_eq rel'
    by (rule mset_take_positions[OF pb], rule mset_take_positions[OF pp])
  have ord: "sorted (map (\<lambda>i. keys ! i) (ix True keys))"
    using sorts_by_ordered[OF ix, of True keys] by (simp add: key_ordered_def)
  have j': "j < length ds'"
  proof (cases bins)
    case True
    with yb obtain g where "ds' = setitem ds ''binned'' g"
      using relevance_with_bins_Inr[of B ix ds actual_col pred_col True yb] by (auto simp: ds'_def)
    then show ?thesis
      using j length_setitem_ge[of ds "''binned''" g] by simp
  next
    case False
    then show ?thesis using j by (simp add: ds'_def relevance_with_snd)
  qed
  have lab: "label = fst (ds' ! j)"
  proof -
    have "1 \<le> actual_col" "actual_col \<le> int (length ds')"
      using a j' unfolding j_def by linarith+
    from columns_valid[OF this] l show ?thesis by (simp add: j_def)
  qed
  have keys_eq: "keys = snd (ds' ! j)"
  proof -
    have "(label, snd (ds' ! j)) \<in> set ds'"
      using j' by (simp add: lab)
    from getitem_unique[OF k this] show ?thesis by simp
  qed
  have "sorted yb"
  proof (cases bins)
    case False
    have "1 \<le> actual_col" "actual_col \<le> int (length ds')"
      using a j' unfolding j_def by linarith+
    from iloc_valid[OF this] r False have "rel = snd (ds' ! j)" by (simp add: j_def)
    with keys_eq ord show ?thesis by (simp add: yb_eq)
  next
    case True
    from yb True obtain x g where x: "iloc ds (actual_col - 1) = Inr x"
      and g: "B x = Inr g"
      and ds'_eq: "ds' = setitem ds ''binned'' g"
      using relevance_with_bins_Inr[of B ix ds actual_col pred_col True yb] by (auto simp: ds'_def)
    have "(''binned'', g) \<in> set ds'"
      by (simp add: ds'_eq setitem_in)
    moreover from r True have "getitem ds' ''binned'' = Inr rel" by simp
    ultimately have rel_g: "rel = g" using getitem_unique by blast
    have x_eq: "x = snd (ds ! j)"
      using iloc_valid[OF a] x by (simp add: j_def)
    from setitem_nth[OF j, of "''binned''" g]
    consider "ds' ! j = ds ! j" | "ds' ! j = (''binned'', g)"
      by (auto simp: ds'_eq split: if_splits)
    then show ?thesis
    proof cases
      case 1
      then have kx: "keys = x" by (simp add: keys_eq x_eq)
      have "set (ix True x) \<subseteq> {0..<length x}"
        by (simp add: sorts_by_set[OF ix])
      from sorted_grades[OF mono g _ this] ord kx show ?thesis
        by (simp add: yb_eq rel_g)
    next
      case 2
      then have "keys = rel" by (simp add: keys_eq rel_g)
      with ord show ?thesis by (simp add: yb_eq)
    qed
  qed
  with m show ?thesis by simp
qed

lemma baseline_is_sorted_prediction:
  assumes "sorts_by ix" "grades_monotone B" "keeps_rows B" "frame_ok ds"
    and "1 \<le> actual_col" "actual_col \<le> int (length ds)"
    and "fst (relevance_with B ix ds actual_col pred_col bins True) = Inr yb"
    and "fst (relevance_with B ix ds actual_col pred_col bins False) = Inr yp"
  shows "yb = sort yp"
proof -
  from baseline_and_prediction[OF assms] have "sorted yb" "mset yb = mset yp" by simp_all
  then show ?thesis by (metis properties_for_sort)
qed

lemma prefix_score_sort_le:
  assumes "i \<le> length r" "\<forall>v\<in>set r. 0 \<le> v"
  shows "prefix_score (sort r) i \<le> prefix_score r i"
proof -
  let ?Y = "rev (sort r)"
  have "0 \<le> dcg ?Y i"
    using assms by (intro dcg_nonneg) auto
  moreover have "dcg (sort r) i \<le> dcg r i"
    using assms(1) by (rule dcg_sort_le)
  moreover have "sort (sort r) = sort r"
    by (simp add: sorted_sort_id)
  ultimately show ?thesis
    by (auto simp: prefix_score_def intro: divide_right_mono)
qed

section \<open>The curve returned in curve mode\<close>

lemmas frame_defs =
  relevance_def relevance_with_def ordered_relevance_def columns_def iloc_def py_pos_def
  and_then_def sort_values_def getitem_def setitem_def take_rows_def stable_indexer_def

lemmas binning_defs =
  exact_binning_def quantile_def quantile_list_def cut_def cut_label_def searchsorted_left_def

lemma upt_2: "[0..<2] = [0, Suc 0]"
  by (simp add: upt_rec)

lemma ndcg_curve_shape:
  assumes "fst (ndcg_at_k ix ds k actual_col pred_col bins reverse True) = Inr r"
  shows "\<exists>ys. fst (relevance ix ds actual_col pred_col bins reverse) = Inr ys \<and>
           nat k \<le> length ys \<and>
           r = Curve (map (\<lambda>i. prefix_score ys (Suc i)) [0..<nat k]) [0..<nat k]"
proof -
  from assms obtain ys where ys: "fst (relevance ix ds actual_col pred_col bins reverse) = Inr ys"
    and sc: "ndcg_scores ys k True = Inr r"
    by (auto simp: ndcg_at_k_fst and_then_def split: sum.splits)
  have le: "nat k \<le> length ys"
  proof (rule ccontr)
    assume "\<not> nat k \<le> length ys"
    then have "int (length ys) < k" by linarith
    from ndcg_scores_overrun[OF this] sc show False by simp
  qed
  from sc show ?thesis
    using ys le by (simp add: ndcg_scores_within[OF le])
qed

text \<open>
  Claim C8, as amended. In curve mode (\<open>multiple = True\<close>) a call that returns gives back two
  lists: the \<open>k\<close> scores, the score of the prefix of length \<open>i + 1\<close> at position \<open>i\<close>, and the
  loop indices \<open>0, 1, ..., k - 1\<close>. The indices are zero-based: the prefix of length \<open>i\<close> is
  listed under \<open>i - 1\<close>, not under \<open>i\<close>.
\<close>

theorem ndcg_curve_indices:
  assumes "fst (ndcg_at_k ix ds k actual_col pred_col bins reverse True) = Inr r"
  shows "\<exists>ys. fst (relevance ix ds actual_col pred_col bins reverse) = Inr ys \<and>
           r = Curve (map (\<lambda>i. prefix_score ys (Suc i)) [0..<nat k]) [0..<nat k]"
  using ndcg_curve_shape[OF assms] by blast

lemma two_rows_relevance:
  "relevance stable_indexer [(''actual'', [1, 0]), (''predicted'', [2, 1])] 1 2 False False =
     (Inr [1, 0], [(''actual'', [1, 0]), (''predicted'', [2, 1])])"
  by (simp add: frame_defs upt_2)

lemma two_rows_curve:
  "fst (ndcg_at_k stable_indexer [(''actual'', [1, 0]), (''predicted'', [2, 1])] 2 1 2
          False False True) = Inr (Curve [1, 1] [0, Suc 0])"
  by (simp add: ndcg_at_k_fst two_rows_relevance and_then_def ndcg_scores_unfold ndcg_loop_simps
      upt_2)

theorem ndcg_curve_indices_witness:
  "fst (ndcg_at_k stable_indexer [(''actual'', [1, 0]), (''predicted'', [2, 1])] 2 1 2
          False False True) = Inr (Curve [1, 1] [0, Suc 0]) \<and>
   (\<exists>ys. fst (relevance stable_indexer [(''actual'', [1, 0]), (''predicted'', [2, 1])] 1 2
                 False False) = Inr ys \<and>
      Curve [1, 1] [0, Suc 0] = Curve (map (\<lambda>i. prefix_score ys (Suc i)) [0..<nat 2]) [0..<nat 2])"
  using ndcg_curve_indices[OF two_rows_curve] two_rows_curve by simp

text \<open>
  Claim C8 as stated fails: for two rows and \<open>k = 2\<close> the indices returned are \<open>0, 1\<close>, not
  \<open>1, 2\<close>.
\<close>

theorem ndcg_curve_indices_counterexample:
  "fst (ndcg_at_k stable_indexer [(''actual'', [1, 0]), (''predicted'', [2, 1])] 2 1 2
          False False True) = Inr (Curve [1, 1] [0, 1]) \<and> [0, 1] \<noteq> [1, 2 :: nat]"
  by (simp add: two_rows_curve)

section \<open>The zero-denominator guard\<close>



lemma map_const_upt: "(\<And>i. i < n \<Longrightarrow> f i = c) \<Longrightarrow> map f [0..<n] = replicate n c"
  by (induction n) (simp_all add: replicate_append_same)


lemma zero_rows_relevance:
  "fst (relevance stable_indexer [(''actual'', [0, 0]), (''predicted'', [2, 1])] 1 2 False False) =
     Inr [0, 0]"
  by (simp add: frame_defs upt_2)


section \<open>Ideal predictions\<close>

lemma score_at_ideal:
  assumes "rev (sort r) = r" "self_ratio A"
  shows "score_at A r i =
     (if f_is_zero A (gain A r i) then f_zero A
      else if f_finite A (gain A r i) then f_one A
      else f_div A (gain A r i) (gain A r i))"
  using assms by (auto simp: score_at_def self_ratio_def)

text \<open>
  Claim C5, as amended. When the relevance values in prediction order are already in ideal
  (descending) order and \<open>1 \<le> k \<le> n\<close>, the gain and the ideal gain of a prefix are the same
  number \<open>g\<close>, and the score of the prefix is the number \<open>0\<close> when \<open>g\<close> is a zero, exactly \<open>1\<close>
  when \<open>g\<close> is a finite number other than zero, and the quotient \<open>g / g\<close> when the accumulation
  has left the finite numbers. It is \<open>1\<close> at every prefix when every accumulated gain is finite
  and not a zero. The arithmetic is the loop's, of which is assumed: a finite number other
  than zero divided by itself is \<open>1\<close>.
\<close>

theorem ndcg_ideal_prediction:
  assumes "fst (relevance_with B ix ds actual_col pred_col bins False) = Inr ys"
    and "rev (sort ys) = ys"
    and "1 \<le> k" "k \<le> int (length ys)"
    and "self_ratio A"
  shows "fst (ndcg_at_k_with A B ix ds k actual_col pred_col bins False True) =
           Inr (Curve (map (\<lambda>i. if f_is_zero A (gain A ys (Suc i)) then f_zero A
                                else if f_finite A (gain A ys (Suc i)) then f_one A
                                else f_div A (gain A ys (Suc i)) (gain A ys (Suc i)))
                         [0..<nat k])
                  [0..<nat k]) \<and>
         fst (ndcg_at_k_with A B ix ds k actual_col pred_col bins False False) =
           Inr (Score (if f_is_zero A (gain A ys (nat k)) then f_zero A
                       else if f_finite A (gain A ys (nat k)) then f_one A
                       else f_div A (gain A ys (nat k)) (gain A ys (nat k)))) \<and>
         ((\<forall>i<nat k. f_finite A (gain A ys (Suc i)) \<and> \<not> f_is_zero A (gain A ys (Suc i))) \<longrightarrow>
            fst (ndcg_at_k_with A B ix ds k actual_col pred_col bins False True) =
              Inr (Curve (replicate (nat k) (f_one A)) [0..<nat k]) \<and>
            fst (ndcg_at_k_with A B ix ds k actual_col pred_col bins False False) =
              Inr (Score (f_one A)))"
proof -
  have le: "nat k \<le> length ys" using assms(4) by linarith
  note w = ndcg_at_k_with_within[OF assms(1,3,4), of A]
  note p = score_at_ideal[OF assms(2,5)]
  have 1: "fst (ndcg_at_k_with A B ix ds k actual_col pred_col bins False True) =
           Inr (Curve (map (\<lambda>i. if f_is_zero A (gain A ys (Suc i)) then f_zero A
                                else if f_finite A (gain A ys (Suc i)) then f_one A
                                else f_div A (gain A ys (Suc i)) (gain A ys (Suc i)))
                         [0..<nat k])
                  [0..<nat k])"
    unfolding w(1) p by (rule refl)
  have 2: "fst (ndcg_at_k_with A B ix ds k actual_col pred_col bins False False) =
           Inr (Score (if f_is_zero A (gain A ys (nat k)) then f_zero A
                       else if f_finite A (gain A ys (nat k)) then f_one A
                       else f_div A (gain A ys (nat k)) (gain A ys (nat k))))"
    unfolding w(2) p by (rule refl)
  have 3: "fst (ndcg_at_k_with A B ix ds k actual_col pred_col bins False True) =
              Inr (Curve (replicate (nat k) (f_one A)) [0..<nat k]) \<and>
            fst (ndcg_at_k_with A B ix ds k actual_col pred_col bins False False) =
              Inr (Score (f_one A))"
    if fin: "\<forall>i<nat k. f_finite A (gain A ys (Suc i)) \<and> \<not> f_is_zero A (gain A ys (Suc i))"
  proof -
    have one: "score_at A ys (Suc i) = f_one A" if "i < nat k" for i
      using fin that unfolding p by simp
    have "map (\<lambda>i. score_at A ys (Suc i)) [0..<nat k] = replicate (nat k) (f_one A)"
      by (rule map_const_upt) (rule one)
    moreover have "score_at A ys (nat k) = f_one A"
    proof -
      from assms(3) obtain j where j: "nat k = Suc j" by (cases "nat k") auto
      then have "j < nat k" by simp
      from one[OF this] show ?thesis by (simp only: j)
    qed
    ultimately show ?thesis using w by simp
  qed
  from 1 2 3 show ?thesis by blast
qed

theorem ndcg_ideal_prediction_witness:
  "fst (relevance stable_indexer [(''actual'', [1, 0]), (''predicted'', [2, 1])] 1 2 False False) =
     Inr [1, 0] \<and>
   rev (sort [1, 0 :: real]) = [1, 0] \<and>
   (1 :: int) \<le> 2 \<and> (2 :: int) \<le> int (length [1, 0 :: real]) \<and>
   self_ratio exact \<and>
   fst (ndcg_at_k stable_indexer [(''actual'', [1, 0]), (''predicted'', [2, 1])] 2 1 2
          False False True) = Inr (Curve [1, 1] [0, Suc 0]) \<and>
   fst (ndcg_at_k stable_indexer [(''actual'', [1, 0]), (''predicted'', [2, 1])] 2 1 2
          False False False) = Inr (Score 1)"
proof -
  have r: "fst (relevance_with exact_binning stable_indexer
                  [(''actual'', [1, 0]), (''predicted'', [2, 1])] 1 2 False False) = Inr [1, 0]"
    using two_rows_relevance by (simp add: relevance_def)
  have s: "rev (sort [1, 0 :: real]) = [1, 0]" by simp
  have k: "(1 :: int) \<le> 2" "(2 :: int) \<le> int (length [1, 0 :: real])" by simp_all
  have fin: "\<forall>i<nat 2. f_finite exact (gain exact [1, 0] (Suc i)) \<and>
                        \<not> f_is_zero exact (gain exact [1, 0] (Suc i))"
    by (simp add: numeral_2_eq_2 All_less_Suc exact_def)
  from ndcg_ideal_prediction[OF r s k self_ratio_exact] fin
  have "fst (ndcg_at_k_with exact exact_binning stable_indexer
               [(''actual'', [1, 0]), (''predicted'', [2, 1])] 2 1 2 False False True) =
          Inr (Curve (replicate (nat 2) (f_one exact)) [0..<nat 2]) \<and>
        fst (ndcg_at_k_with exact exact_binning stable_indexer
               [(''actual'', [1, 0]), (''predicted'', [2, 1])] 2 1 2 False False False) =
          Inr (Score (f_one exact))"
    by blast
  moreover have "f_one exact = 1" by (simp add: exact_def)
  ultimately show ?thesis
    using r self_ratio_exact by (simp add: numeral_2_eq_2 ndcg_at_k_def relevance_def)
qed

text \<open>
  Claim C5 as stated fails: for the relevance values \<open>0, 0\<close> the prediction ordering is the ideal
  ordering, and the score is \<open>0\<close> at both prefixes, not \<open>1\<close>.
\<close>

theorem ndcg_ideal_prediction_counterexample:
  "fst (relevance stable_indexer [(''actual'', [0, 0]), (''predicted'', [2, 1])] 1 2 False False) =
     Inr [0, 0] \<and>
   rev (sort [0, 0 :: real]) = [0, 0] \<and>
   fst (ndcg_at_k stable_indexer [(''actual'', [0, 0]), (''predicted'', [2, 1])] 2 1 2
          False False True) = Inr (Curve [0, 0] [0, 1]) \<and>
   Curve [0, 0] [0, 1] \<noteq> Curve [1, 1 :: real] [0, 1]"
  by (simp add: zero_rows_relevance ndcg_at_k_fst and_then_def ndcg_scores_unfold ndcg_loop_simps
      upt_2)

section \<open>Rank correlation\<close>

text \<open>
  Claim C9. For the columns \<open>1, 2, 3, 4\<close> and \<open>4, 3, 2, 1\<close> the coefficient returned by
  \<open>spearman_ds\<close> is \<open>-1\<close>.
\<close>

theorem spearman_reversed:
  "spearman_ds pvalue_of [(''actual'', [1, 2, 3, 4]), (''predicted'', [4, 3, 2, 1])] 1 2 False policy =
     Inr (Coefficient (Some (- 1)))"
  by (simp add: spearman_ds_def iloc_def py_pos_def and_then_def spearmanr_def rankdata_def
      pearson_def mean_def)

section \<open>The concrete scenario\<close>

lemma scenario_relevance_any:
  assumes "sorts_by ix"
  shows "relevance ix [(''actual'', [0.9, 0.1, 0.5]), (''predicted'', [0.2, 0.8, 0.5])] 1 2
           False False =
         (Inr [0.1, 0.5, 0.9], [(''actual'', [0.9, 0.1, 0.5]), (''predicted'', [0.2, 0.8, 0.5])])"
proof -
  have "ix False [0.2, 0.8, 0.5] = stable_indexer False [0.2, 0.8, 0.5]"
    using assms by (rule sorts_by_distinct_keys) simp
  also have "\<dots> = [1, 2, 0]"
    by (simp add: stable_indexer_def upt_rec)
  finally have "ix False [0.2, 0.8, 0.5] = [1, 2, 0]" .
  then have ix: "ix False [1 / 5, 4 / 5, 1 / 2] = [1, 2, 0]" by simp
  show ?thesis
    by (simp add: relevance_def relevance_with_def ordered_relevance_def columns_def iloc_def
        py_pos_def and_then_def sort_values_def getitem_def take_rows_def ix)
qed

text \<open>
  Claim C1. For the batch \<open>actual = [0.9, 0.1, 0.5]\<close>, \<open>predicted = [0.2, 0.8, 0.5]\<close>, without bins
  and without baseline, whatever order the library's sort gives to equal keys: the relevance in
  prediction order is \<open>[0.1, 0.5, 0.9]\<close>, the ideal order is \<open>[0.9, 0.5, 0.1]\<close>, after one round
  the loop holds the gain \<open>0.1\<close> and the ideal gain \<open>0.9\<close>, and with \<open>k = 3\<close> the first score of
  the curve is \<open>0.1 / 0.9\<close>.
\<close>

theorem ndcg_scenario:
  assumes "sorts_by ix"
  shows "fst (relevance ix [(''actual'', [0.9, 0.1, 0.5]), (''predicted'', [0.2, 0.8, 0.5])] 1 2
                False False) = Inr [0.1, 0.5, 0.9] \<and>
         rev (sort [0.1, 0.5, 0.9 :: real]) = [0.9, 0.5, 0.1] \<and>
         ndcg_loop [0.1, 0.5, 0.9] [0.9, 0.5, 0.1] [0..<1] 0 0 [] [] =
           Inr (0.1, 0.9, [0.1 / 0.9], [0]) \<and>
         (\<exists>s2 s3.
            fst (ndcg_at_k ix [(''actual'', [0.9, 0.1, 0.5]), (''predicted'', [0.2, 0.8, 0.5])]
                   3 1 2 False False True) = Inr (Curve [0.1 / 0.9, s2, s3] [0, 1, 2]))"
proof -
  have "ndcg_scores [0.1, 0.5, 0.9] 3 True =
          Inr (Curve (map (\<lambda>i. prefix_score [0.1, 0.5, 0.9] (Suc i)) [0..<nat 3]) [0..<nat 3])"
    by (subst ndcg_scores_within) simp_all
  moreover have "prefix_score [0.1, 0.5, 0.9] (Suc 0) = 0.1 / 0.9"
    by (simp add: prefix_score_def dcg_def)
  moreover have "[0..<nat 3] = [0, 1, 2]"
    by (simp add: upt_rec)
  ultimately have "\<exists>s2 s3. ndcg_scores [0.1, 0.5, 0.9] 3 True =
      Inr (Curve [0.1 / 0.9, s2, s3] [0, 1, 2])"
    by simp
  then show ?thesis
    using scenario_relevance_any[OF assms]
    by (simp add: ndcg_at_k_fst and_then_def ndcg_loop_simps)
qed

theorem ndcg_scenario_witness:
  "sorts_by stable_indexer \<and>
   fst (relevance stable_indexer [(''actual'', [0.9, 0.1, 0.5]), (''predicted'', [0.2, 0.8, 0.5])]
          1 2 False False) = Inr [0.1, 0.5, 0.9] \<and>
   (\<exists>s2 s3.
      fst (ndcg_at_k stable_indexer
             [(''actual'', [0.9, 0.1, 0.5]), (''predicted'', [0.2, 0.8, 0.5])]
             3 1 2 False False True) = Inr (Curve [0.1 / 0.9, s2, s3] [0, 1, 2]))"
  using ndcg_scenario[OF sorts_by_stable] sorts_by_stable by blast

section \<open>The caller's frame\<close>

lemma setitem_keeps:
  assumes "j < length ds"
  shows "fst (setitem ds name col ! j) = fst (ds ! j) \<and>
         (fst (ds ! j) \<noteq> name \<longrightarrow> setitem ds name col ! j = ds ! j)"
  using assms by (simp add: setitem_nth)

lemma relevance_with_frame_cases:
  "snd (relevance_with B ix ds actual_col pred_col bins reverse) = ds \<or>
   (\<exists>g. snd (relevance_with B ix ds actual_col pred_col bins reverse) = setitem ds ''binned'' g)"
  by (auto simp: relevance_with_snd split: sum.splits)

lemma relevance_with_keeps:
  assumes "j < length ds"
  shows "fst (snd (relevance_with B ix ds actual_col pred_col bins reverse) ! j) = fst (ds ! j) \<and>
         (fst (ds ! j) \<noteq> ''binned'' \<longrightarrow>
            snd (relevance_with B ix ds actual_col pred_col bins reverse) ! j = ds ! j)"
  using relevance_with_frame_cases[of B ix ds actual_col pred_col bins reverse]
    setitem_keeps[OF assms] by auto

text \<open>
  Claim C3, as amended. Whatever the arithmetic, the binning and the sort, and whether the
  call returns or fails:
  \<^item> with bins disabled the call leaves the caller's frame as it was;
  \<^item> in every case each column of the frame keeps its position and its label, and each column
    not named \<open>binned\<close> keeps its values: no column is removed or renamed;
  \<^item> with bins enabled, when reading the actual column fails or the binning fails, the frame
    is left as it was; when both succeed, the call has assigned the grades to \<open>binned\<close> on the
    caller's frame: every column of that name now holds the grades, and when there was none,
    one was added at the end.
\<close>

theorem ndcg_frame_effect:
  "let ds' = snd (ndcg_at_k_with A B ix ds k actual_col pred_col bins reverse multiple) in
     (\<not> bins \<longrightarrow> ds' = ds) \<and>
     (\<forall>j<length ds. fst (ds' ! j) = fst (ds ! j) \<and>
                     (fst (ds ! j) \<noteq> ''binned'' \<longrightarrow> ds' ! j = ds ! j)) \<and>
     (bins \<longrightarrow>
        (case iloc ds (actual_col - 1) of
           Inl e \<Rightarrow> ds' = ds
         | Inr x \<Rightarrow>
            (case B x of
               Inl e \<Rightarrow> ds' = ds
             | Inr g \<Rightarrow>
                 ds' = setitem ds ''binned'' g \<and>
                 (\<forall>c\<in>set ds'. fst c = ''binned'' \<longrightarrow> snd c = g) \<and>
                 (''binned'', g) \<in> set ds' \<and>
                 length ds' =
                   (if ''binned'' \<in> fst ` set ds then length ds else Suc (length ds)))))"
proof -
  define ds' where "ds' = snd (relevance_with B ix ds actual_col pred_col bins reverse)"
  have 1: "\<not> bins \<longrightarrow> ds' = ds"
    by (simp add: ds'_def relevance_with_snd)
  have 2: "\<forall>j<length ds. fst (ds' ! j) = fst (ds ! j) \<and>
                     (fst (ds ! j) \<noteq> ''binned'' \<longrightarrow> ds' ! j = ds ! j)"
    unfolding ds'_def using relevance_with_keeps by blast
  have 3: "bins \<longrightarrow>
        (case iloc ds (actual_col - 1) of
           Inl e \<Rightarrow> ds' = ds
         | Inr x \<Rightarrow>
            (case B x of
               Inl e \<Rightarrow> ds' = ds
             | Inr g \<Rightarrow>
                 ds' = setitem ds ''binned'' g \<and>
                 (\<forall>c\<in>set ds'. fst c = ''binned'' \<longrightarrow> snd c = g) \<and>
                 (''binned'', g) \<in> set ds' \<and>
                 length ds' =
                   (if ''binned'' \<in> fst ` set ds then length ds else Suc (length ds))))"
    using setitem_named[of _ ds "''binned''"] setitem_in[of "''binned''" _ ds]
    by (auto simp: ds'_def relevance_with_snd length_setitem split: sum.splits)
  from 1 2 3 show ?thesis
    unfolding Let_def ndcg_at_k_with_snd ds'_def[symmetric] by blast
qed

lemma six_rows_grades:
  "exact_binning [3, 1, 2, 4, 5, 6] = Inr [1, 0, 0, 2, 3, 4]"
  by (simp add: binning_defs)

theorem ndcg_frame_effect_witness:
  "iloc [(''actual'', [3, 1, 2, 4, 5, 6]), (''predicted'', [1, 2, 3, 4, 5, 6])] (1 - 1) =
     Inr [3, 1, 2, 4, 5, 6] \<and>
   exact_binning [3, 1, 2, 4, 5, 6] = Inr [1, 0, 0, 2, 3, 4] \<and>
   snd (ndcg_at_k_with exact exact_binning stable_indexer
          [(''actual'', [3, 1, 2, 4, 5, 6]), (''predicted'', [1, 2, 3, 4, 5, 6])] 1 1 2
          True False False) =
     setitem [(''actual'', [3, 1, 2, 4, 5, 6]), (''predicted'', [1, 2, 3, 4, 5, 6])]
       ''binned'' [1, 0, 0, 2, 3, 4] \<and>
   length (snd (ndcg_at_k_with exact exact_binning stable_indexer
          [(''actual'', [3, 1, 2, 4, 5, 6]), (''predicted'', [1, 2, 3, 4, 5, 6])] 1 1 2
          True False False)) = 3 \<and>
   snd (ndcg_at_k_with exact exact_binning stable_indexer
          [(''actual'', [3, 1, 2, 4, 5, 6]), (''predicted'', [1, 2, 3, 4, 5, 6])] 1 1 2
          False False False) =
     [(''actual'', [3, 1, 2, 4, 5, 6]), (''predicted'', [1, 2, 3, 4, 5, 6])]"
proof -
  let ?ds = "[(''actual'', [3, 1, 2, 4, 5, 6 :: real]), (''predicted'', [1, 2, 3, 4, 5, 6])]"
  have x: "iloc ?ds (1 - 1) = Inr [3, 1, 2, 4, 5, 6]"
    by (simp add: iloc_def py_pos_def and_then_def)
  have new: "''binned'' \<notin> fst ` set ?ds" by simp
  from ndcg_frame_effect[of exact exact_binning stable_indexer ?ds 1 1 2 True False False]
  have "snd (ndcg_at_k_with exact exact_binning stable_indexer ?ds 1 1 2 True False False) =
          setitem ?ds ''binned'' [1, 0, 0, 2, 3, 4] \<and>
        length (snd (ndcg_at_k_with exact exact_binning stable_indexer ?ds 1 1 2
                       True False False)) = 3"
    unfolding Let_def using x six_rows_grades new by (simp add: length_setitem)
  moreover from ndcg_frame_effect[of exact exact_binning stable_indexer ?ds 1 1 2 False False False]
  have "snd (ndcg_at_k_with exact exact_binning stable_indexer ?ds 1 1 2 False False False) = ?ds"
    unfolding Let_def by simp
  ultimately show ?thesis
    using x six_rows_grades by blast
qed

text \<open>
  Claim C3 as stated fails with bins: a frame of two columns and six rows has three columns
  after the call.
\<close>

theorem ndcg_frame_effect_counterexample:
  "snd (ndcg_at_k stable_indexer
          [(''actual'', [3, 1, 2, 4, 5, 6]), (''predicted'', [1, 2, 3, 4, 5, 6])] 1 1 2
          True False False) =
     [(''actual'', [3, 1, 2, 4, 5, 6]), (''predicted'', [1, 2, 3, 4, 5, 6]),
      (''binned'', [1, 0, 0, 2, 3, 4])] \<and>
   [(''actual'', [3, 1, 2, 4, 5, 6]), (''predicted'', [1, 2, 3, 4, 5, 6]),
    (''binned'', [1, 0, 0, 2, 3, 4])] \<noteq>
   [(''actual'', [3, 1, 2, 4, 5, 6 :: real]), (''predicted'', [1, 2, 3, 4, 5, 6])]"
  by (simp add: ndcg_at_k_snd relevance_def relevance_with_snd iloc_def py_pos_def and_then_def
      setitem_def six_rows_grades)

section \<open>The cutoff\<close>

text \<open>
  Claim C2, as amended. The code checks no cutoff: what fails is an index past the end. For a
  frame of \<open>n\<close> rows, a sort that orders by key and a binning that grades every row, in
  whatever arithmetic:
  \<^item> once the relevance values are obtained, with any flags, and \<open>n \<ge> 1\<close>, the call with
    \<open>k = n\<close> returns a result, in both output modes;
  \<^item> the relevance values are obtained whenever bins are disabled, the column labels are
    distinct and the two column positions lie within the frame;
  \<^item> for every \<open>k > n\<close> the call fails, in both output modes: with \<open>IndexError\<close> once the
    relevance values are obtained;
  \<^item> for every \<open>k \<le> 0\<close> the scalar mode fails in the same way;
  \<^item> for every \<open>k \<le> 0\<close> the curve mode, once the relevance values are obtained, does not fail:
    it returns the empty curve;
  \<^item> when the relevance values are not obtained, the call fails with the error of the step
    that failed (a column position outside the frame, the binning, a lookup by label),
    whatever \<open>k\<close> and the output mode.
\<close>

theorem ndcg_cutoff:
  assumes "sorts_by ix" "keeps_rows B" "frame_ok ds"
  shows "((\<exists>ys. fst (relevance_with B ix ds actual_col pred_col bins reverse) = Inr ys) \<and>
          1 \<le> nrows ds \<longrightarrow>
            (\<exists>r. fst (ndcg_at_k_with A B ix ds (int (nrows ds)) actual_col pred_col bins reverse
                         multiple) = Inr r)) \<and>
         (distinct (map fst ds) \<and> 1 \<le> actual_col \<and> actual_col \<le> int (length ds) \<and>
          1 \<le> pred_col \<and> pred_col \<le> int (length ds) \<longrightarrow>
            (\<exists>ys. fst (relevance_with B ix ds actual_col pred_col False reverse) = Inr ys)) \<and>
         (int (nrows ds) < k \<longrightarrow>
            (\<exists>e. fst (ndcg_at_k_with A B ix ds k actual_col pred_col bins reverse multiple) =
                    Inl e) \<and>
            ((\<exists>ys. fst (relevance_with B ix ds actual_col pred_col bins reverse) = Inr ys) \<longrightarrow>
               fst (ndcg_at_k_with A B ix ds k actual_col pred_col bins reverse multiple) =
                 Inl IndexError)) \<and>
         (k \<le> 0 \<longrightarrow>
            (\<exists>e. fst (ndcg_at_k_with A B ix ds k actual_col pred_col bins reverse False) =
                    Inl e) \<and>
            ((\<exists>ys. fst (relevance_with B ix ds actual_col pred_col bins reverse) = Inr ys) \<longrightarrow>
               fst (ndcg_at_k_with A B ix ds k actual_col pred_col bins reverse False) =
                 Inl IndexError)) \<and>
         (k \<le> 0 \<and>
          (\<exists>ys. fst (relevance_with B ix ds actual_col pred_col bins reverse) = Inr ys) \<longrightarrow>
            fst (ndcg_at_k_with A B ix ds k actual_col pred_col bins reverse True) =
              Inr (Curve [] [])) \<and>
         (\<forall>e. fst (relevance_with B ix ds actual_col pred_col bins reverse) = Inl e \<longrightarrow>
            fst (ndcg_at_k_with A B ix ds k actual_col pred_col bins reverse multiple) = Inl e)"
proof -
  let ?rel = "fst (relevance_with B ix ds actual_col pred_col bins reverse)"
  have N: "\<exists>r. fst (ndcg_at_k_with A B ix ds (int (nrows ds)) actual_col pred_col bins reverse
                      multiple) = Inr r"
    if "?rel = Inr ys" "1 \<le> nrows ds" for ys
  proof -
    have len: "length ys = nrows ds"
      using assms that(1) by (rule relevance_with_length)
    have "1 \<le> int (nrows ds)" "int (nrows ds) \<le> int (length ys)"
      using that(2) len by simp_all
    from ndcg_at_k_with_within[OF that(1) this, of A] show ?thesis
      by (cases multiple) auto
  qed
  have P: "\<exists>ys. fst (relevance_with B ix ds actual_col pred_col False reverse) = Inr ys"
    if "distinct (map fst ds)" "1 \<le> actual_col" "actual_col \<le> int (length ds)"
      "1 \<le> pred_col" "pred_col \<le> int (length ds)"
    using relevance_with_plain[OF that, of B ix reverse] by simp
  have O: "fst (ndcg_at_k_with A B ix ds k actual_col pred_col bins reverse multiple) =
             Inl IndexError"
    if "int (nrows ds) < k" "?rel = Inr ys" for ys
  proof -
    have "length ys = nrows ds"
      using assms that(2) by (rule relevance_with_length)
    with that(1) have "int (length ys) < k" by simp
    then show ?thesis
      by (simp add: ndcg_at_k_with_fst that(2) and_then_def ndcg_scores_with_overrun)
  qed
  have L: "fst (ndcg_at_k_with A B ix ds k actual_col pred_col bins reverse m) = Inl e"
    if "?rel = Inl e" for e m
    using that by (simp add: ndcg_at_k_with_fst and_then_def)
  have E: "\<exists>e. fst (ndcg_at_k_with A B ix ds k actual_col pred_col bins reverse m) = Inl e"
    if "\<And>ys. ?rel = Inr ys \<Longrightarrow>
          fst (ndcg_at_k_with A B ix ds k actual_col pred_col bins reverse m) = Inl IndexError"
    for m
  proof (cases ?rel)
    case (Inl e)
    from L[OF this] show ?thesis by blast
  next
    case (Inr ys)
    from that[OF this] show ?thesis by blast
  qed
  have S: "fst (ndcg_at_k_with A B ix ds k actual_col pred_col bins reverse False) =
             Inl IndexError"
    if "k \<le> 0" "?rel = Inr ys" for ys
  proof -
    have "nat k \<le> length ys" using that(1) by simp
    from ndcg_scores_with_within[OF this, of A False] that show ?thesis
      by (simp add: ndcg_at_k_with_fst and_then_def)
  qed
  have C: "fst (ndcg_at_k_with A B ix ds k actual_col pred_col bins reverse True) =
             Inr (Curve [] [])"
    if "k \<le> 0" "?rel = Inr ys" for ys
  proof -
    have "nat k \<le> length ys" using that(1) by simp
    from ndcg_scores_with_within[OF this, of A True] that show ?thesis
      by (simp add: ndcg_at_k_with_fst and_then_def)
  qed
  from N P O L E S C show ?thesis
    by (intro conjI impI allI) blast+
qed

lemma two_rows_ok: "frame_ok [(''actual'', [1, 0]), (''predicted'', [2, 1])]"
  by (simp add: frame_ok_def nrows_def)

lemma one_row_ok: "frame_ok [(''actual'', [5]), (''predicted'', [1])]"
  by (simp add: frame_ok_def nrows_def)

lemma one_row_relevance:
  "fst (relevance_with exact_binning stable_indexer [(''actual'', [5]), (''predicted'', [1])]
          1 2 True False) = Inl ValueError"
  by (simp add: relevance_with_def iloc_def py_pos_def and_then_def binning_defs)

theorem ndcg_cutoff_witness:
  "sorts_by stable_indexer \<and> keeps_rows exact_binning \<and>
   frame_ok [(''actual'', [1, 0]), (''predicted'', [2, 1])] \<and>
   frame_ok [(''actual'', [5]), (''predicted'', [1])] \<and>
   (\<exists>r. fst (ndcg_at_k stable_indexer [(''actual'', [1, 0]), (''predicted'', [2, 1])] 2 1 2
                False False False) = Inr r) \<and>
   fst (ndcg_at_k stable_indexer [(''actual'', [1, 0]), (''predicted'', [2, 1])] 3 1 2
          False False False) = Inl IndexError \<and>
   fst (ndcg_at_k stable_indexer [(''actual'', [1, 0]), (''predicted'', [2, 1])] 0 1 2
          False False False) = Inl IndexError \<and>
   fst (ndcg_at_k stable_indexer [(''actual'', [1, 0]), (''predicted'', [2, 1])] 0 1 2
          False False True) = Inr (Curve [] []) \<and>
   fst (ndcg_at_k stable_indexer [(''actual'', [5]), (''predicted'', [1])] 1 1 2
          True False False) = Inl ValueError"
proof -
  let ?ds = "[(''actual'', [1, 0 :: real]), (''predicted'', [2, 1])]"
  note t = ndcg_cutoff[OF sorts_by_stable keeps_rows_exact two_rows_ok,
      where A = exact and actual_col = 1 and pred_col = 2 and bins = False and reverse = False]
  have r: "\<exists>ys. fst (relevance_with exact_binning stable_indexer ?ds 1 2 False False) = Inr ys"
    using t[where k = 0 and multiple = False] by simp
  have 1: "\<exists>r. fst (ndcg_at_k stable_indexer ?ds 2 1 2 False False False) = Inr r"
    using t[where k = 0 and multiple = False] r by (simp add: nrows_def ndcg_at_k_def)
  have 2: "fst (ndcg_at_k stable_indexer ?ds 3 1 2 False False False) = Inl IndexError"
    using t[where k = 3 and multiple = False] r by (simp add: nrows_def ndcg_at_k_def)
  have 3: "fst (ndcg_at_k stable_indexer ?ds 0 1 2 False False False) = Inl IndexError"
    using t[where k = 0 and multiple = False] r by (simp add: nrows_def ndcg_at_k_def)
  have 4: "fst (ndcg_at_k stable_indexer ?ds 0 1 2 False False True) = Inr (Curve [] [])"
    using t[where k = 0 and multiple = False] r by (simp add: nrows_def ndcg_at_k_def)
  have 5: "fst (ndcg_at_k stable_indexer [(''actual'', [5]), (''predicted'', [1])] 1 1 2
                  True False False) = Inl ValueError"
    using ndcg_cutoff[OF sorts_by_stable keeps_rows_exact one_row_ok,
        where A = exact and actual_col = 1 and pred_col = 2 and bins = True and reverse = False
          and k = 1 and multiple = False]
      one_row_relevance
    by (simp add: ndcg_at_k_def)
  from 1 2 3 4 5 sorts_by_stable keeps_rows_exact two_rows_ok one_row_ok show ?thesis by blast
qed

text \<open>
  Claim C2 as stated fails: with \<open>k = 0\<close> in curve mode the call returns the empty curve instead
  of failing.
\<close>

theorem ndcg_cutoff_counterexample:
  "fst (ndcg_at_k stable_indexer [(''actual'', [1, 0]), (''predicted'', [2, 1])] 0 1 2
          False False True) = Inr (Curve [] [])"
  by (simp add: ndcg_at_k_fst two_rows_relevance and_then_def ndcg_scores_unfold ndcg_loop_simps)

section \<open>The baseline ordering\<close>

text \<open>
  Claim C6, as amended. For a frame of \<open>n\<close> rows whose actual column lies within the frame
  (\<open>1 \<le> actual_col \<le>\<close> the number of columns), a sort that orders by key, a binning that grades
  every row and never grades a higher value lower, and a cutoff \<open>1 \<le> k \<le> n\<close>: when both
  orderings are obtained for the same data (bins on or off),
  \<^item> the baseline ordering (\<open>reverse = True\<close>) is the prediction ordering (\<open>reverse = False\<close>)
    sorted ascending, so both calls divide by the same ideal gain;
  \<^item> both calls return, in whatever arithmetic, the baseline the score of the ascending
    ordering and the prediction call the score of its own ordering, each guarded against a
    zero ideal gain;
  \<^item> computed exactly, the discounted gain of every prefix of the baseline ordering is at
    most that of the prediction ordering, and so is the score when no relevance value is
    negative.

  Nothing is said about when the two scores are equal, and nothing about the order of the two
  scores as floating-point arithmetic rounds them.
\<close>

theorem ndcg_baseline_bound:
  assumes "sorts_by ix" "grades_monotone B" "keeps_rows B" "frame_ok ds"
    and "1 \<le> actual_col" "actual_col \<le> int (length ds)"
    and "fst (relevance_with B ix ds actual_col pred_col bins True) = Inr yb"
    and "fst (relevance_with B ix ds actual_col pred_col bins False) = Inr yp"
    and "1 \<le> k" "k \<le> int (nrows ds)"
  shows "yb = sort yp \<and> rev (sort yb) = rev (sort yp) \<and>
         fst (ndcg_at_k_with A B ix ds k actual_col pred_col bins True False) =
           Inr (Score (if f_is_zero A (gain A (rev (sort yp)) (nat k)) then f_zero A
                       else f_div A (gain A (sort yp) (nat k)) (gain A (rev (sort yp)) (nat k)))) \<and>
         fst (ndcg_at_k_with A B ix ds k actual_col pred_col bins False False) =
           Inr (Score (if f_is_zero A (gain A (rev (sort yp)) (nat k)) then f_zero A
                       else f_div A (gain A yp (nat k)) (gain A (rev (sort yp)) (nat k)))) \<and>
         fst (ndcg_at_k_with A B ix ds k actual_col pred_col bins True True) =
           Inr (Curve (map (\<lambda>i. if f_is_zero A (gain A (rev (sort yp)) (Suc i)) then f_zero A
                                else f_div A (gain A (sort yp) (Suc i))
                                       (gain A (rev (sort yp)) (Suc i))) [0..<nat k])
                  [0..<nat k]) \<and>
         fst (ndcg_at_k_with A B ix ds k actual_col pred_col bins False True) =
           Inr (Curve (map (\<lambda>i. if f_is_zero A (gain A (rev (sort yp)) (Suc i)) then f_zero A
                                else f_div A (gain A yp (Suc i))
                                       (gain A (rev (sort yp)) (Suc i))) [0..<nat k])
                  [0..<nat k]) \<and>
         (\<forall>i\<le>nat k. dcg yb i \<le> dcg yp i) \<and>
         ((\<forall>v\<in>set yp. 0 \<le> v) \<longrightarrow> (\<forall>i\<le>nat k. prefix_score yb i \<le> prefix_score yp i))"
proof -
  have yb: "yb = sort yp"
    using assms(1-8) by (rule baseline_is_sorted_prediction)
  have ideal: "rev (sort (sort yp)) = rev (sort yp)"
    by (simp add: sorted_sort_id)
  have len: "length yp = nrows ds"
    using assms(1,3,4,8) by (rule relevance_with_length)
  have kb: "k \<le> int (length (sort yp))" and kp: "k \<le> int (length yp)"
    using assms(10) len by simp_all
  note wb = ndcg_at_k_with_within[OF assms(7)[unfolded yb] assms(9) kb, of A]
  note wp = ndcg_at_k_with_within[OF assms(8) assms(9) kp, of A]
  have 1: "fst (ndcg_at_k_with A B ix ds k actual_col pred_col bins True False) =
           Inr (Score (if f_is_zero A (gain A (rev (sort yp)) (nat k)) then f_zero A
                       else f_div A (gain A (sort yp) (nat k)) (gain A (rev (sort yp)) (nat k))))"
    unfolding wb(2) score_at_def ideal by (rule refl)
  have 2: "fst (ndcg_at_k_with A B ix ds k actual_col pred_col bins False False) =
           Inr (Score (if f_is_zero A (gain A (rev (sort yp)) (nat k)) then f_zero A
                       else f_div A (gain A yp (nat k)) (gain A (rev (sort yp)) (nat k))))"
    unfolding wp(2) score_at_def by (rule refl)
  have 3: "fst (ndcg_at_k_with A B ix ds k actual_col pred_col bins True True) =
           Inr (Curve (map (\<lambda>i. if f_is_zero A (gain A (rev (sort yp)) (Suc i)) then f_zero A
                                else f_div A (gain A (sort yp) (Suc i))
                                       (gain A (rev (sort yp)) (Suc i))) [0..<nat k])
                  [0..<nat k])"
    unfolding wb(1) score_at_def ideal by (rule refl)
  have 4: "fst (ndcg_at_k_with A B ix ds k actual_col pred_col bins False True) =
           Inr (Curve (map (\<lambda>i. if f_is_zero A (gain A (rev (sort yp)) (Suc i)) then f_zero A
                                else f_div A (gain A yp (Suc i))
                                       (gain A (rev (sort yp)) (Suc i))) [0..<nat k])
                  [0..<nat k])"
    unfolding wp(1) score_at_def by (rule refl)
  have le: "i \<le> length yp" if "i \<le> nat k" for i
    using that kp by linarith
  have 5: "\<forall>i\<le>nat k. dcg yb i \<le> dcg yp i"
    unfolding yb using le by (auto intro: dcg_sort_le)
  have 6: "\<forall>i\<le>nat k. prefix_score yb i \<le> prefix_score yp i" if "\<forall>v\<in>set yp. 0 \<le> v"
    unfolding yb using le that by (auto intro: prefix_score_sort_le)
  from yb ideal 1 2 3 4 5 6 show ?thesis
    by (intro conjI impI) simp_all
qed

lemma two_rows_baseline:
  "fst (relevance stable_indexer [(''actual'', [1, 0]), (''predicted'', [2, 1])] 1 2 False True) =
     Inr [0, 1]"
  by (simp add: frame_defs upt_2)

theorem ndcg_baseline_bound_witness:
  "sorts_by stable_indexer \<and> grades_monotone exact_binning \<and> keeps_rows exact_binning \<and>
   frame_ok [(''actual'', [1, 0]), (''predicted'', [2, 1])] \<and>
   fst (relevance stable_indexer [(''actual'', [1, 0]), (''predicted'', [2, 1])] 1 2 False True) =
     Inr [0, 1] \<and>
   fst (relevance stable_indexer [(''actual'', [1, 0]), (''predicted'', [2, 1])] 1 2 False False) =
     Inr [1, 0] \<and>
   [0, 1] = sort [1, 0 :: real] \<and>
   dcg [0, 1] 2 \<le> dcg [1, 0] 2 \<and>
   prefix_score [0, 1] 2 \<le> prefix_score [1, 0] 2 \<and>
   (\<exists>sb sp.
      fst (ndcg_at_k stable_indexer [(''actual'', [1, 0]), (''predicted'', [2, 1])] 2 1 2
             False True False) = Inr (Score sb) \<and>
      fst (ndcg_at_k stable_indexer [(''actual'', [1, 0]), (''predicted'', [2, 1])] 2 1 2
             False False False) = Inr (Score sp))"
proof -
  let ?ds = "[(''actual'', [1, 0 :: real]), (''predicted'', [2, 1])]"
  have b: "fst (relevance_with exact_binning stable_indexer ?ds 1 2 False True) = Inr [0, 1]"
    using two_rows_baseline by (simp add: relevance_def)
  have p: "fst (relevance_with exact_binning stable_indexer ?ds 1 2 False False) = Inr [1, 0]"
    using two_rows_relevance by (simp add: relevance_def)
  have a: "(1 :: int) \<le> 1" "(1 :: int) \<le> int (length ?ds)"
    by simp_all
  have nn: "\<forall>v\<in>set [1, 0 :: real]. 0 \<le> v" by simp
  have k: "(1 :: int) \<le> 2" "(2 :: int) \<le> int (nrows ?ds)"
    by (simp_all add: nrows_def)
  have n: "(2 :: nat) \<le> nat 2" by simp
  note t = ndcg_baseline_bound[OF sorts_by_stable grades_monotone_exact keeps_rows_exact
      two_rows_ok a b p k, of exact]
  from t have 1: "[0, 1] = sort [1, 0 :: real]" by blast
  from t n have 2: "dcg [0, 1] 2 \<le> dcg [1, 0] 2" by blast
  from t nn n have 3: "prefix_score [0, 1] 2 \<le> prefix_score [1, 0] 2" by blast
  from t have 4: "\<exists>sb sp.
      fst (ndcg_at_k stable_indexer ?ds 2 1 2 False True False) = Inr (Score sb) \<and>
      fst (ndcg_at_k stable_indexer ?ds 2 1 2 False False False) = Inr (Score sp)"
    unfolding ndcg_at_k_def by blast
  from 1 2 3 4 sorts_by_stable grades_monotone_exact keeps_rows_exact two_rows_ok
    two_rows_baseline two_rows_relevance
  show ?thesis by simp
qed

text \<open>
  Claim C6 as stated fails twice. For the relevance values \<open>1, 2\<close> predicted in reverse, the
  prediction ordering is the baseline ordering: the two scores are equal although the
  relevance values differ. For the relevance values \<open>-1, -2\<close> the baseline scores \<open>2\<close> and the
  prediction ordering \<open>1\<close>.
\<close>

theorem ndcg_baseline_bound_counterexample:
  "fst (ndcg_at_k stable_indexer [(''actual'', [1, 2]), (''predicted'', [2, 1])] 1 1 2
          False True False) = Inr (Score (1 / 2)) \<and>
   fst (ndcg_at_k stable_indexer [(''actual'', [1, 2]), (''predicted'', [2, 1])] 1 1 2
          False False False) = Inr (Score (1 / 2)) \<and>
   (1 :: real) \<noteq> 2 \<and>
   fst (ndcg_at_k stable_indexer [(''actual'', [- 1, - 2]), (''predicted'', [2, 1])] 1 1 2
          False True False) = Inr (Score 2) \<and>
   fst (ndcg_at_k stable_indexer [(''actual'', [- 1, - 2]), (''predicted'', [2, 1])] 1 1 2
          False False False) = Inr (Score 1) \<and>
   \<not> (2 :: real) \<le> 1"
  by (simp add: ndcg_at_k_fst frame_defs ndcg_scores_unfold ndcg_loop_simps upt_2 Let_def)

end
